theory Spec2Isabelle
  imports Complex_Main
begin

section \<open>Data model\<close>

text \<open>
  \<^verbatim>\<open>type Mark = "X" | "O" | null\<close>. A player is a non-null mark
  (\<^verbatim>\<open>Exclude<Mark, null>\<close>), \<open>PX\<close> for \<^verbatim>\<open>"X"\<close> and \<open>PO\<close> for \<^verbatim>\<open>"O"\<close>;
  \<^verbatim>\<open>null\<close> is \<open>None\<close>. A board is the
  array of marks; the program builds every board with \<^verbatim>\<open>Array(9).fill(null)\<close> and
  \<^verbatim>\<open>slice()\<close>, so a board has nine cells, and the theorems below are stated for
  boards of length nine.
\<close>

datatype player = PX | PO

type_synonym mark = "player option"

type_synonym board = "mark list"

text \<open>
  Reading \<^verbatim>\<open>board[i]\<close>: an index past the end reads \<^verbatim>\<open>undefined\<close>, which is
  falsy like \<^verbatim>\<open>null\<close>. A write \<^verbatim>\<open>board[i] = v\<close> is \<open>board[i := v]\<close>; every write
  of the program is at an index below nine.
\<close>

definition cell :: "board \<Rightarrow> nat \<Rightarrow> mark" where
  "cell board i = (if i < length board then board ! i else None)"

definition WIN_LINES :: "(nat \<times> nat \<times> nat) list" where
  "WIN_LINES =
     [(0, 1, 2), (3, 4, 5), (6, 7, 8),
      (0, 3, 6), (1, 4, 7), (2, 5, 8),
      (0, 4, 8), (2, 4, 6)]"

record verdict =
  winner :: mark
  line :: "nat list option"

section \<open>Outcome evaluator\<close>

text \<open>The \<^verbatim>\<open>for (const [a, b, c] of WIN_LINES)\<close> loop of \<^verbatim>\<open>calculateWinner\<close>.\<close>

fun scan_lines :: "(nat \<times> nat \<times> nat) list \<Rightarrow> board \<Rightarrow> verdict" where
  "scan_lines [] board = \<lparr>winner = None, line = None\<rparr>"
| "scan_lines ((a, b, c) # ls) board =
     (if cell board a \<noteq> None \<and> cell board a = cell board b \<and> cell board a = cell board c
      then \<lparr>winner = cell board a, line = Some [a, b, c]\<rparr>
      else scan_lines ls board)"

definition calculateWinner :: "board \<Rightarrow> verdict" where
  "calculateWinner board = scan_lines WIN_LINES board"

definition isBoardFull :: "board \<Rightarrow> bool" where
  "isBoardFull board = list_all (\<lambda>v. v \<noteq> None) board"

fun opponent :: "player \<Rightarrow> player" where
  "opponent p = (if p = PX then PO else PX)"

section \<open>Scores\<close>

text \<open>
  A score is a JavaScript number: an integer, or one of the two infinities that
  \<^verbatim>\<open>minimax\<close> and \<^verbatim>\<open>bestMoveFor\<close> start their running best from.
\<close>

datatype score = NegInf | Fin int | PosInf

instantiation score :: linorder
begin

fun less_eq_score :: "score \<Rightarrow> score \<Rightarrow> bool" where
  "less_eq_score NegInf _ = True"
| "less_eq_score _ PosInf = True"
| "less_eq_score (Fin a) (Fin b) = (a \<le> b)"
| "less_eq_score _ _ = False"

definition less_score :: "score \<Rightarrow> score \<Rightarrow> bool" where
  "less_score a b = (a \<le> b \<and> \<not> b \<le> a)"

instance
proof
  fix x y z :: score
  show "(x < y) = (x \<le> y \<and> \<not> y \<le> x)" by (simp add: less_score_def)
  show "x \<le> x" by (cases x) simp_all
  show "x \<le> y \<Longrightarrow> y \<le> z \<Longrightarrow> x \<le> z" by (cases x; cases y; cases z) simp_all
  show "x \<le> y \<Longrightarrow> y \<le> x \<Longrightarrow> x = y" by (cases x; cases y) simp_all
  show "x \<le> y \<or> y \<le> x" by (cases x; cases y) auto
qed

end

text \<open>
  \<^verbatim>\<open>Math.floor(Math.random() * n)\<close>, with \<open>u\<close> the value \<^verbatim>\<open>Math.random()\<close>
  returned: a number with \<open>0 \<le> u < 1\<close>.
\<close>

definition rand_index :: "real \<Rightarrow> nat \<Rightarrow> nat" where
  "rand_index u n = nat \<lfloor>u * real n\<rfloor>"

section \<open>Minimax search\<close>

text \<open>
  \<^verbatim>\<open>minimax\<close> mutates the board it is given and undoes each placement, so the model
  threads the board through the search and returns it with the score. The first
  argument bounds the recursion depth: \<open>None\<close> is a search that did not return within
  it. \<open>minimax_loop\<close> is the \<^verbatim>\<open>for (let i = 0; i < 9; i++)\<close> loop, run over the
  indices that remain, with the running \<^verbatim>\<open>best\<close>.
\<close>

fun minimax :: "nat \<Rightarrow> board \<Rightarrow> player \<Rightarrow> player \<Rightarrow> int \<Rightarrow> (score \<times> board) option"
  and minimax_loop ::
    "nat \<Rightarrow> nat list \<Rightarrow> board \<Rightarrow> player \<Rightarrow> player \<Rightarrow> int \<Rightarrow> score \<Rightarrow> (score \<times> board) option"
where
  "minimax 0 board current ai depth = None"
| "minimax (Suc n) board current ai depth =
     (case winner (calculateWinner board) of
        Some w \<Rightarrow> Some (Fin (if w = ai then 10 - depth else depth - 10), board)
      | None \<Rightarrow>
          if isBoardFull board then Some (Fin 0, board)
          else minimax_loop n [0..<9] board current ai depth
                 (if current = ai then NegInf else PosInf))"
| "minimax_loop n [] board current ai depth best = Some (best, board)"
| "minimax_loop n (i # is) board current ai depth best =
     (if cell board i = None then
        (case minimax n (board[i := Some current]) (opponent current) ai (depth + 1) of
           None \<Rightarrow> None
         | Some (score, board') \<Rightarrow>
             minimax_loop n is (board'[i := None]) current ai depth
               (if current = ai then max best score else min best score))
      else minimax_loop n is board current ai depth best)"

text \<open>The loop of \<^verbatim>\<open>bestMoveFor\<close>, with \<^verbatim>\<open>bestScore\<close> and \<^verbatim>\<open>scoredMoves\<close>.\<close>

fun bestMoveFor_loop ::
  "nat \<Rightarrow> nat list \<Rightarrow> board \<Rightarrow> player \<Rightarrow> score \<Rightarrow> (nat \<times> score) list
     \<Rightarrow> (score \<times> (nat \<times> score) list \<times> board) option"
where
  "bestMoveFor_loop n [] board player bestScore scoredMoves =
     Some (bestScore, scoredMoves, board)"
| "bestMoveFor_loop n (i # is) board player bestScore scoredMoves =
     (if cell board i = None then
        (case minimax n (board[i := Some player]) (opponent player) player 0 of
           None \<Rightarrow> None
         | Some (score, board') \<Rightarrow>
             bestMoveFor_loop n is (board'[i := None]) player
               (if score > bestScore then score else bestScore)
               (scoredMoves @ [(i, score)]))
      else bestMoveFor_loop n is board player bestScore scoredMoves)"

text \<open>
  \<^verbatim>\<open>bestMoveFor\<close>: the inner \<open>None\<close> is the \<^verbatim>\<open>null\<close> it returns when no move is
  left; \<open>u\<close> is the value of its one \<^verbatim>\<open>Math.random()\<close> call.
\<close>

definition bestMoveFor :: "nat \<Rightarrow> real \<Rightarrow> board \<Rightarrow> player \<Rightarrow> (nat option \<times> board) option" where
  "bestMoveFor n u board player =
     (case bestMoveFor_loop n [0..<9] board player NegInf [] of
        None \<Rightarrow> None
      | Some (bestScore, scoredMoves, board') \<Rightarrow>
          (let top = filter (\<lambda>m. snd m = bestScore) scoredMoves in
           if length top = 0 then Some (None, board')
           else Some (Some (fst (top ! rand_index u (length top))), board')))"

section \<open>Difficulty tiers\<close>

text \<open>
  The helpers of the turn effect close over the working copy \<^verbatim>\<open>b\<close>; here it is a
  parameter, and a helper that writes to it returns it.
\<close>

datatype difficulty = Easy | Medium | Hard

definition empties :: "board \<Rightarrow> nat list" where
  "empties b = filter (\<lambda>i. b ! i = None) [0..<length b]"

definition randomMove :: "real \<Rightarrow> board \<Rightarrow> nat option" where
  "randomMove u b =
     (let e = empties b in
      if length e = 0 then None else Some (e ! rand_index u (length e)))"

fun findWinningMove_loop :: "nat list \<Rightarrow> board \<Rightarrow> player \<Rightarrow> nat option \<times> board" where
  "findWinningMove_loop [] b pl = (None, b)"
| "findWinningMove_loop (i # is) b pl =
     (let b1 = b[i := Some pl];
          w = winner (calculateWinner b1);
          b2 = b1[i := None]
      in if w = Some pl then (Some i, b2) else findWinningMove_loop is b2 pl)"

definition findWinningMove :: "board \<Rightarrow> player \<Rightarrow> nat option \<times> board" where
  "findWinningMove b pl = findWinningMove_loop (empties b) b pl"

definition mediumMove :: "real \<Rightarrow> board \<Rightarrow> player \<Rightarrow> nat option \<times> board" where
  "mediumMove u b pl =
     (case findWinningMove b pl of
        (Some winNow, b1) \<Rightarrow> (Some winNow, b1)
      | (None, b1) \<Rightarrow>
          (case findWinningMove b1 (opponent pl) of
             (Some block, b2) \<Rightarrow> (Some block, b2)
           | (None, b2) \<Rightarrow>
               if 4 < length b2 \<and> b2 ! 4 = None then (Some 4, b2)
               else
                 (let corners = filter (\<lambda>i. i < length b2 \<and> b2 ! i = None) [0, 2, 6, 8] in
                  if length corners \<noteq> 0
                  then (Some (corners ! rand_index u (length corners)), b2)
                  else (randomMove u b2, b2))))"

definition pickByDifficulty ::
  "nat \<Rightarrow> real \<Rightarrow> board \<Rightarrow> player \<Rightarrow> difficulty \<Rightarrow> (nat option \<times> board) option" where
  "pickByDifficulty n u b pl diff =
     (if diff = Easy then Some (randomMove u b, b)
      else if diff = Medium then Some (mediumMove u b pl)
      else bestMoveFor n u b pl)"

section \<open>Turn loop\<close>

definition gameOver :: "board \<Rightarrow> bool" where
  "gameOver board = (winner (calculateWinner board) \<noteq> None \<or> isBoardFull board)"

text \<open>
  The turn effect, run until the game is over, with betting off: each turn copies the
  board, asks \<^verbatim>\<open>pickByDifficulty\<close> for the player to move, applies a non-null move to
  a copy, and flips the turn. Each turn draws one \<^verbatim>\<open>Math.random()\<close> value for its
  move, taken from the list; \<open>None\<close> is a run that is not over when the list is used up,
  or whose search did not return.
\<close>

fun autoplay ::
  "nat \<Rightarrow> difficulty \<Rightarrow> difficulty \<Rightarrow> real list \<Rightarrow> board \<Rightarrow> player \<Rightarrow> board option"
where
  "autoplay n difficultyX difficultyO [] board current =
     (if gameOver board then Some board else None)"
| "autoplay n difficultyX difficultyO (u # us) board current =
     (if gameOver board then Some board
      else
        (case pickByDifficulty n u board current
                (if current = PX then difficultyX else difficultyO) of
           None \<Rightarrow> None
         | Some (None, b) \<Rightarrow> autoplay n difficultyX difficultyO us board (opponent current)
         | Some (Some move, b) \<Rightarrow>
             autoplay n difficultyX difficultyO us (b[move := Some current]) (opponent current)))"

section \<open>Auxiliary notions\<close>

text \<open>
  The rest of the theory reasons about the program above. \<open>free b\<close> lists the cells the
  search loops visit on a nine-cell board: the indices below nine whose cell is empty.
  \<open>nempty b\<close> counts the empty cells.
\<close>

declare opponent.simps [simp del]

lemma opponent_PX [simp]: "opponent PX = PO" and opponent_PO [simp]: "opponent PO = PX"
  by (simp_all add: opponent.simps)

lemma opponent_neq [simp]: "opponent p \<noteq> p" "p \<noteq> opponent p"
  by (cases p; simp)+

lemma opponent_opponent [simp]: "opponent (opponent p) = p"
  by (cases p) simp_all

lemma eq_opponent_iff: "(w = opponent p) = (w \<noteq> p)"
  by (cases p; cases w) simp_all

definition free :: "board \<Rightarrow> nat list" where
  "free b = filter (\<lambda>i. i < length b \<and> b ! i = None) [0..<9]"

definition nempty :: "board \<Rightarrow> nat" where
  "nempty b = length (filter (\<lambda>v. v = None) b)"

lemma nempty_place:
  "i < length b \<Longrightarrow> b ! i = None \<Longrightarrow> Suc (nempty (b[i := Some p])) = nempty b"
  unfolding nempty_def
proof (induction b arbitrary: i)
  case Nil
  then show ?case by simp
next
  case (Cons v b)
  then show ?case by (cases i) auto
qed

function minimax_value :: "board \<Rightarrow> player \<Rightarrow> player \<Rightarrow> int \<Rightarrow> score" where
  "minimax_value b cur ai d =
     (case winner (calculateWinner b) of
        Some w \<Rightarrow> Fin (if w = ai then 10 - d else d - 10)
      | None \<Rightarrow>
          if isBoardFull b then Fin 0
          else
            (let scores = map (\<lambda>i. minimax_value (b[i := Some cur]) (opponent cur) ai (d + 1)) (free b)
             in if cur = ai then fold max scores NegInf else fold min scores PosInf))"
  by pat_completeness auto
termination
proof (relation "measure (\<lambda>(b, cur, ai, d). nempty b)")
  show "wf (measure (\<lambda>(b, cur, ai, d). nempty b))" by simp
next
  fix b :: board and cur ai :: player and d :: int and x
  assume "x \<in> set (free b)"
  then have "x < length b" "b ! x = None" by (auto simp: free_def)
  from nempty_place[OF this, of cur]
  show "((b[x := Some cur], opponent cur, ai, d + 1), b, cur, ai, d)
          \<in> measure (\<lambda>(b, cur, ai, d). nempty b)" by simp
qed

declare minimax_value.simps [simp del]

lemma free_cell: "length b = 9 \<Longrightarrow> i < 9 \<Longrightarrow> (cell b i = None) = (i \<in> set (free b))"
  by (auto simp: free_def cell_def)

lemma loop_refines:
  assumes IH: "\<And>b' c a e. length b' = 9 \<Longrightarrow> nempty b' < n \<Longrightarrow>
                 minimax n b' c a e = Some (minimax_value b' c a e, b')"
    and len: "length b = 9" and ne: "nempty b \<le> n" and idx: "\<forall>i \<in> set js. i < 9"
  shows "minimax_loop n js b cur ai d best =
           Some (fold (\<lambda>s best. if cur = ai then max best s else min best s)
                   (map (\<lambda>i. minimax_value (b[i := Some cur]) (opponent cur) ai (d + 1))
                      (filter (\<lambda>i. i < length b \<and> b ! i = None) js)) best, b)"
  using idx
proof (induction js arbitrary: best)
  case Nil
  then show ?case by simp
next
  case (Cons i js)
  have js: "\<forall>i \<in> set js. i < 9" using Cons.prems by simp
  show ?case
  proof (cases "cell b i = None")
    case True
    with Cons.prems len have i: "i < length b" "b ! i = None" by (auto simp: cell_def)
    from nempty_place[OF i, of cur] ne have "nempty (b[i := Some cur]) < n" by simp
    with IH[of "b[i := Some cur]" "opponent cur" ai "d + 1"] len
    have call: "minimax n (b[i := Some cur]) (opponent cur) ai (d + 1) =
            Some (minimax_value (b[i := Some cur]) (opponent cur) ai (d + 1), b[i := Some cur])" by simp
    have undo: "(b[i := Some cur])[i := None] = b" using i by (simp add: list_update_same_conv)
    show ?thesis using True i
      by (simp only: minimax_loop.simps call undo if_True option.case prod.case
            filter.simps list.map fold_simps o_apply simp_thms Cons.IH[OF js])
  next
    case False
    with Cons.prems len have nf: "\<not> (i < length b \<and> b ! i = None)" by (auto simp: cell_def)
    show ?thesis using False nf
      by (simp only: minimax_loop.simps if_False filter.simps Cons.IH[OF js])
  qed
qed

lemma minimax_refines:
  "length b = 9 \<Longrightarrow> nempty b < n \<Longrightarrow> minimax n b cur ai d = Some (minimax_value b cur ai d, b)"
proof (induction n arbitrary: b cur ai d)
  case 0
  then show ?case by simp
next
  case (Suc n)
  show ?case
  proof (cases "winner (calculateWinner b)")
    case (Some w)
    then show ?thesis by (simp add: minimax_value.simps[of b])
  next
    case None
    show ?thesis
    proof (cases "isBoardFull b")
      case True
      with None show ?thesis by (simp add: minimax_value.simps[of b])
    next
      case False
      have ne: "nempty b \<le> n" using Suc.prems by simp
      have "minimax_loop n [0..<9] b cur ai d (if cur = ai then NegInf else PosInf) =
           Some (fold (\<lambda>s best. if cur = ai then max best s else min best s)
                   (map (\<lambda>i. minimax_value (b[i := Some cur]) (opponent cur) ai (d + 1))
                      (filter (\<lambda>i. i < length b \<and> b ! i = None) [0..<9]))
                   (if cur = ai then NegInf else PosInf), b)"
        by (rule loop_refines[OF Suc.IH Suc.prems(1) ne]) auto
      moreover have "(\<lambda>s best. max best s) = (max :: score \<Rightarrow> score \<Rightarrow> score)"
        "(\<lambda>s best. min best s) = (min :: score \<Rightarrow> score \<Rightarrow> score)"
        by (auto simp: fun_eq_iff max.commute min.commute)
      ultimately show ?thesis using None False
        by (cases "cur = ai") (simp_all add: minimax_value.simps[of b] free_def Let_def)
    qed
  qed
qed

definition reply :: "nat list \<Rightarrow> board \<Rightarrow> player \<Rightarrow> nat option" where
  "reply prio b ai =
     (case fst (findWinningMove b ai) of
        Some j \<Rightarrow> Some j
      | None \<Rightarrow>
          (case fst (findWinningMove b (opponent ai)) of
             Some j \<Rightarrow> Some j
           | None \<Rightarrow> find (\<lambda>j. j < length b \<and> b ! j = None) prio))"

function holds :: "nat list \<Rightarrow> board \<Rightarrow> player \<Rightarrow> player \<Rightarrow> bool" where
  "holds prio b cur ai =
     (case winner (calculateWinner b) of
        Some w \<Rightarrow> w = ai
      | None \<Rightarrow>
          if isBoardFull b then True
          else if cur = ai then
            (case reply prio b ai of
               None \<Rightarrow> False
             | Some j \<Rightarrow>
                 if j < 9 \<and> j < length b \<and> b ! j = None
                 then holds prio (b[j := Some cur]) (opponent cur) ai
                 else False)
          else list_all (\<lambda>i. holds prio (b[i := Some cur]) (opponent cur) ai) (free b))"
  by pat_completeness auto
termination
proof (relation "measure (\<lambda>(prio, b, cur, ai). nempty b)")
  show "wf (measure (\<lambda>(prio, b, cur, ai). nempty b))" by simp
next
  fix prio :: "nat list" and b :: board and cur ai :: player and j :: nat
  assume "j < 9 \<and> j < length b \<and> b ! j = None"
  then have "j < length b" "b ! j = None" by auto
  from nempty_place[OF this, of cur]
  show "((prio, b[j := Some cur], opponent cur, ai), prio, b, cur, ai)
          \<in> measure (\<lambda>(prio, b, cur, ai). nempty b)" by simp
next
  fix prio :: "nat list" and b :: board and cur ai :: player and x :: nat
  assume "x \<in> set (free b)"
  then have "x < length b" "b ! x = None" by (auto simp: free_def)
  from nempty_place[OF this, of cur]
  show "((prio, b[x := Some cur], opponent cur, ai), prio, b, cur, ai)
          \<in> measure (\<lambda>(prio, b, cur, ai). nempty b)" by simp
qed

declare holds.simps [simp del]


lemma fold_max_init: "(a::'a::linorder) \<le> fold max xs a"
proof (induction xs arbitrary: a)
  case (Cons y ys)
  have "a \<le> max y a" by simp
  also have "\<dots> \<le> fold max ys (max y a)" by (rule Cons.IH)
  finally show ?case by simp
qed simp

lemma fold_max_ge: "x \<in> set xs \<Longrightarrow> (x::'a::linorder) \<le> fold max xs a"
proof (induction xs arbitrary: a)
  case (Cons y ys)
  show ?case
  proof (cases "x = y")
    case True
    have "x \<le> max y a" using True by simp
    also have "\<dots> \<le> fold max ys (max y a)" by (rule fold_max_init)
    finally show ?thesis by simp
  next
    case False
    with Cons.prems have "x \<in> set ys" by simp
    from Cons.IH[OF this] show ?thesis by simp
  qed
qed simp

lemma fold_max_in: "fold max xs (a::'a::linorder) = a \<or> fold max xs a \<in> set xs"
proof (induction xs arbitrary: a)
  case (Cons y ys)
  from Cons.IH[of "max y a"] show ?case by (auto simp: max_def split: if_splits)
qed simp

lemma fold_min_init: "fold min xs a \<le> (a::'a::linorder)"
proof (induction xs arbitrary: a)
  case (Cons y ys)
  have "fold min ys (min y a) \<le> min y a" by (rule Cons.IH)
  also have "\<dots> \<le> a" by simp
  finally show ?case by simp
qed simp

lemma fold_min_le: "x \<in> set xs \<Longrightarrow> fold min xs a \<le> (x::'a::linorder)"
proof (induction xs arbitrary: a)
  case (Cons y ys)
  show ?case
  proof (cases "x = y")
    case True
    have "fold min ys (min y a) \<le> min y a" by (rule fold_min_init)
    also have "\<dots> \<le> x" using True by simp
    finally show ?thesis by simp
  next
    case False
    with Cons.prems have "x \<in> set ys" by simp
    from Cons.IH[OF this] show ?thesis by simp
  qed
qed simp

lemma fold_min_in: "fold min xs (a::'a::linorder) = a \<or> fold min xs a \<in> set xs"
proof (induction xs arbitrary: a)
  case (Cons y ys)
  from Cons.IH[of "min y a"] show ?case by (auto simp: min_def split: if_splits)
qed simp

lemma NegInf_least [simp]: "NegInf \<le> s" by (cases s) simp_all
lemma PosInf_greatest [simp]: "s \<le> PosInf" by (cases s) simp_all

lemma fold_max_NegInf_in: "xs \<noteq> [] \<Longrightarrow> fold max xs NegInf \<in> set xs"
proof -
  assume ne: "xs \<noteq> []"
  then obtain x where x: "x \<in> set xs" by (cases xs) auto
  show ?thesis
  proof (cases "fold max xs NegInf = NegInf")
    case True
    from fold_max_ge[OF x, of NegInf] True have "x \<le> NegInf" by simp
    then have "x = NegInf" by (cases x) simp_all
    with x True show ?thesis by simp
  next
    case False
    with fold_max_in[of xs NegInf] show ?thesis by simp
  qed
qed

lemma fold_min_PosInf_in: "xs \<noteq> [] \<Longrightarrow> fold min xs PosInf \<in> set xs"
proof -
  assume ne: "xs \<noteq> []"
  then obtain x where x: "x \<in> set xs" by (cases xs) auto
  show ?thesis
  proof (cases "fold min xs PosInf = PosInf")
    case True
    from fold_min_le[OF x, of PosInf] True have "PosInf \<le> x" by simp
    then have "x = PosInf" by (cases x) simp_all
    with x True show ?thesis by simp
  next
    case False
    with fold_min_in[of xs PosInf] show ?thesis by simp
  qed
qed

lemma free_empty_iff: "length b = 9 \<Longrightarrow> (free b = []) = isBoardFull b"
  by (auto simp: free_def isBoardFull_def list_all_length filter_empty_conv)

lemma free_props: "i \<in> set (free b) \<Longrightarrow> i < 9 \<and> i < length b \<and> b ! i = None"
  by (auto simp: free_def)

lemma minimax_value_range:
  "length b = 9 \<Longrightarrow> d + int (nempty b) \<le> 9 \<Longrightarrow>
   \<exists>v. minimax_value b cur ai d = Fin v \<and> (v = 0 \<or> (10 - d - int (nempty b) \<le> \<bar>v\<bar> \<and> \<bar>v\<bar> \<le> 10 - d))"
proof (induction b cur ai d rule: minimax_value.induct)
  case (1 b cur ai d)
  show ?case
  proof (cases "winner (calculateWinner b)")
    case (Some w)
    then show ?thesis using "1.prems" by (simp add: minimax_value.simps[of b])
  next
    case None
    show ?thesis
    proof (cases "isBoardFull b")
      case True
      with None show ?thesis by (simp add: minimax_value.simps[of b])
    next
      case False
      let ?scores = "map (\<lambda>i. minimax_value (b[i := Some cur]) (opponent cur) ai (d + 1)) (free b)"
      have ne: "?scores \<noteq> []" using False free_empty_iff[OF "1.prems"(1)] by simp
      have each: "\<exists>v. s = Fin v \<and> (v = 0 \<or> (10 - d - int (nempty b) \<le> \<bar>v\<bar> \<and> \<bar>v\<bar> \<le> 10 - d))"
        if "s \<in> set ?scores" for s
      proof -
        from that obtain i where i: "i \<in> set (free b)"
          and s: "s = minimax_value (b[i := Some cur]) (opponent cur) ai (d + 1)" by auto
        from free_props[OF i] have ib: "i < length b" "b ! i = None" by auto
        from nempty_place[OF ib, of cur] have e: "int (nempty b) = int (nempty (b[i := Some cur])) + 1"
          by simp
        have "\<exists>v. minimax_value (b[i := Some cur]) (opponent cur) ai (d + 1) = Fin v \<and>
                (v = 0 \<or> (10 - (d + 1) - int (nempty (b[i := Some cur])) \<le> \<bar>v\<bar> \<and> \<bar>v\<bar> \<le> 10 - (d + 1)))"
          using "1.IH"[OF None False i] "1.prems" e by simp
        then show ?thesis using s e by auto
      qed
      have "minimax_value b cur ai d \<in> set ?scores"
        using fold_max_NegInf_in[OF ne] fold_min_PosInf_in[OF ne] None False
        by (cases "cur = ai") (auto simp: minimax_value.simps[of b] Let_def)
      from each[OF this] show ?thesis .
    qed
  qed
qed

fun sg :: "score \<Rightarrow> int" where
  "sg NegInf = - 1"
| "sg (Fin v) = sgn v"
| "sg PosInf = 1"

function outcome :: "board \<Rightarrow> player \<Rightarrow> player \<Rightarrow> int" where
  "outcome b cur ai =
     (case winner (calculateWinner b) of
        Some w \<Rightarrow> (if w = ai then 1 else - 1)
      | None \<Rightarrow>
          if isBoardFull b then 0
          else
            (let os = map (\<lambda>i. outcome (b[i := Some cur]) (opponent cur) ai) (free b)
             in if cur = ai then fold max os (- 1) else fold min os 1))"
  by pat_completeness auto
termination
proof (relation "measure (\<lambda>(b, cur, ai). nempty b)")
  show "wf (measure (\<lambda>(b, cur, ai). nempty b))" by simp
next
  fix b :: board and cur ai :: player and x
  assume "x \<in> set (free b)"
  then have "x < length b" "b ! x = None" by (auto simp: free_def)
  from nempty_place[OF this, of cur]
  show "((b[x := Some cur], opponent cur, ai), b, cur, ai)
          \<in> measure (\<lambda>(b, cur, ai). nempty b)" by simp
qed

declare outcome.simps [simp del]

lemma sg_mono: "a \<le> b \<Longrightarrow> sg a \<le> sg b"
  by (cases a; cases b) (auto simp: sgn_if)

lemma sg_max: "sg (max a b) = max (sg a) (sg b)"
  using sg_mono[of a b] sg_mono[of b a] by (auto simp: max_def)

lemma sg_min: "sg (min a b) = min (sg a) (sg b)"
  using sg_mono[of a b] sg_mono[of b a] by (auto simp: min_def)

lemma sg_fold_max: "sg (fold max xs a) = fold max (map sg xs) (sg a)"
  by (induction xs arbitrary: a) (simp_all add: sg_max)

lemma sg_fold_min: "sg (fold min xs a) = fold min (map sg xs) (sg a)"
  by (induction xs arbitrary: a) (simp_all add: sg_min)

lemma sg_minimax_value:
  "length b = 9 \<Longrightarrow> d + int (nempty b) \<le> 9 \<Longrightarrow> sg (minimax_value b cur ai d) = outcome b cur ai"
proof (induction b cur ai d rule: minimax_value.induct)
  case (1 b cur ai d)
  show ?case
  proof (cases "winner (calculateWinner b)")
    case (Some w)
    then show ?thesis using "1.prems" by (simp add: minimax_value.simps[of b] outcome.simps[of b])
  next
    case None
    show ?thesis
    proof (cases "isBoardFull b")
      case True
      with None show ?thesis by (simp add: minimax_value.simps[of b] outcome.simps[of b])
    next
      case False
      have each: "sg (minimax_value (b[i := Some cur]) (opponent cur) ai (d + 1)) =
                    outcome (b[i := Some cur]) (opponent cur) ai" if i: "i \<in> set (free b)" for i
      proof -
        from free_props[OF i] have ib: "i < length b" "b ! i = None" by auto
        from nempty_place[OF ib, of cur] have "int (nempty b) = int (nempty (b[i := Some cur])) + 1"
          by simp
        then show ?thesis using "1.IH"[OF None False i] "1.prems" by simp
      qed
      then have "map sg (map (\<lambda>i. minimax_value (b[i := Some cur]) (opponent cur) ai (d + 1)) (free b)) =
                 map (\<lambda>i. outcome (b[i := Some cur]) (opponent cur) ai) (free b)"
        by simp
      then show ?thesis using None False
        by (cases "cur = ai")
           (simp_all add: minimax_value.simps[of b] outcome.simps[of b] Let_def sg_fold_max sg_fold_min
              del: map_map)
    qed
  qed
qed

lemma fold_min_uminus: "fold min (map uminus xs) (- a) = - fold max xs (a::int)"
  by (induction xs arbitrary: a) (simp_all add: max_def min_def)

lemma fold_max_uminus: "fold max (map uminus xs) (- a) = - fold min xs (a::int)"
  by (induction xs arbitrary: a) (simp_all add: max_def min_def)

lemma outcome_opponent: "outcome b cur (opponent ai) = - outcome b cur ai"
proof (induction b cur ai rule: outcome.induct)
  case (1 b cur ai)
  show ?case
  proof (cases "winner (calculateWinner b)")
    case (Some w)
    then show ?thesis
      by (simp add: outcome.simps[of b] eq_opponent_iff)
  next
    case None
    show ?thesis
    proof (cases "isBoardFull b")
      case True
      with None show ?thesis by (simp add: outcome.simps[of b])
    next
      case False
      have "map (\<lambda>i. outcome (b[i := Some cur]) (opponent cur) (opponent ai)) (free b) =
            map uminus (map (\<lambda>i. outcome (b[i := Some cur]) (opponent cur) ai) (free b))"
        using "1.IH"[OF None False] by simp
      then show ?thesis using None False
          fold_min_uminus[of "map (\<lambda>i. outcome (b[i := Some cur]) (opponent cur) ai) (free b)" "- 1"]
          fold_max_uminus[of "map (\<lambda>i. outcome (b[i := Some cur]) (opponent cur) ai) (free b)" 1]
        by (cases "cur = ai")
           (simp_all add: outcome.simps[of b] Let_def eq_opponent_iff del: map_map)
    qed
  qed
qed

lemma holds_outcome: "holds prio b cur ai \<Longrightarrow> 0 \<le> outcome b cur ai"
proof (induction prio b cur ai rule: holds.induct)
  case (1 prio b cur ai)
  show ?case
  proof (cases "winner (calculateWinner b)")
    case (Some w)
    then show ?thesis using "1.prems" by (simp add: outcome.simps[of b] holds.simps[of prio b])
  next
    case None
    show ?thesis
    proof (cases "isBoardFull b")
      case True
      with None show ?thesis by (simp add: outcome.simps[of b])
    next
      case False
      let ?os = "map (\<lambda>i. outcome (b[i := Some cur]) (opponent cur) ai) (free b)"
      show ?thesis
      proof (cases "cur = ai")
        case True
        from "1.prems" None False True obtain j where
          j: "reply prio b ai = Some j" "j < 9" "j < length b" "b ! j = None"
            "holds prio (b[j := Some cur]) (opponent cur) ai"
          by (auto simp: holds.simps[of prio b] split: option.splits if_splits)
        have "0 \<le> outcome (b[j := Some cur]) (opponent cur) ai"
          using "1.IH"(1)[OF None False True j(1)] j by simp
        moreover have "j \<in> set (free b)" using j by (simp add: free_def)
        then have "outcome (b[j := Some cur]) (opponent cur) ai \<in> set ?os" by simp
        then have "outcome (b[j := Some cur]) (opponent cur) ai \<le> fold max ?os (- 1)"
          by (rule fold_max_ge)
        ultimately show ?thesis using None False True
          by (simp add: outcome.simps[of b] Let_def)
      next
        case nm: False
        from "1.prems" None False nm have
          all: "\<forall>i \<in> set (free b). holds prio (b[i := Some cur]) (opponent cur) ai"
          by (simp add: holds.simps[of prio b] list_all_iff)
        have "\<forall>x \<in> set ?os. 0 \<le> x"
          using "1.IH"(2)[OF None False nm] all by auto
        moreover have "fold min ?os 1 = 1 \<or> fold min ?os 1 \<in> set ?os" by (rule fold_min_in)
        ultimately have "0 \<le> fold min ?os 1" by auto
        then show ?thesis using None False nm
          by (simp add: outcome.simps[of b] Let_def)
      qed
    qed
  qed
qed

definition move_score :: "board \<Rightarrow> player \<Rightarrow> nat \<Rightarrow> score" where
  "move_score b p i = minimax_value (b[i := Some p]) (opponent p) p 0"

definition best_cells :: "board \<Rightarrow> player \<Rightarrow> nat list" where
  "best_cells b p =
     filter (\<lambda>i. move_score b p i = fold max (map (move_score b p) (free b)) NegInf) (free b)"

lemma nempty_le: "nempty b \<le> length b"
  by (simp add: nempty_def)

lemma bestMoveFor_loop_refines:
  assumes len: "length b = 9" and ne: "nempty b \<le> n" and idx: "\<forall>i \<in> set js. i < 9"
  shows "bestMoveFor_loop n js b p bs sm =
           Some (fold max (map (move_score b p) (filter (\<lambda>i. i < length b \<and> b ! i = None) js)) bs,
                 sm @ map (\<lambda>i. (i, move_score b p i)) (filter (\<lambda>i. i < length b \<and> b ! i = None) js),
                 b)"
  using idx
proof (induction js arbitrary: bs sm)
  case Nil
  then show ?case by simp
next
  case (Cons i js)
  have js: "\<forall>i \<in> set js. i < 9" using Cons.prems by simp
  show ?case
  proof (cases "cell b i = None")
    case True
    with Cons.prems len have i: "i < length b" "b ! i = None" by (auto simp: cell_def)
    from nempty_place[OF i, of p] ne have "nempty (b[i := Some p]) < n" by simp
    with minimax_refines[of "b[i := Some p]" n "opponent p" p 0] len
    have call: "minimax n (b[i := Some p]) (opponent p) p 0 =
            Some (move_score b p i, b[i := Some p])" by (simp add: move_score_def)
    have undo: "(b[i := Some p])[i := None] = b" using i by (simp add: list_update_same_conv)
    have mx: "(if bs < move_score b p i then move_score b p i else bs) = max (move_score b p i) bs"
      by (auto simp: max_def)
    show ?thesis using True i
      by (simp only: bestMoveFor_loop.simps call undo if_True option.case prod.case
            filter.simps list.map fold_simps o_apply simp_thms Cons.IH[OF js] mx
            append_assoc append_Cons append_Nil)
  next
    case False
    with Cons.prems len have nf: "\<not> (i < length b \<and> b ! i = None)" by (auto simp: cell_def)
    show ?thesis using False nf
      by (simp only: bestMoveFor_loop.simps if_False filter.simps Cons.IH[OF js])
  qed
qed

lemma rand_index_less: "0 \<le> u \<Longrightarrow> u < 1 \<Longrightarrow> 0 < n \<Longrightarrow> rand_index u n < n"
proof -
  assume u: "0 \<le> u" "u < 1" and n: "0 < n"
  have "u * real n < real n" using u n by simp
  then have "\<lfloor>u * real n\<rfloor> < int n" by (simp add: floor_less_iff)
  moreover have "0 \<le> \<lfloor>u * real n\<rfloor>" using u by simp
  ultimately show ?thesis by (simp add: rand_index_def nat_less_iff)
qed

lemma bestMoveFor_eq:
  assumes len: "length b = 9" and n: "9 \<le> n" and u: "0 \<le> u" "u < 1"
  shows "bestMoveFor n u b p =
           Some (if best_cells b p = [] then None
                 else Some (best_cells b p ! rand_index u (length (best_cells b p))), b)"
proof -
  let ?best = "fold max (map (move_score b p) (free b)) NegInf"
  let ?sm = "map (\<lambda>i. (i, move_score b p i)) (free b)"
  have ne: "nempty b \<le> n" using nempty_le[of b] len n by simp
  have loop: "bestMoveFor_loop n [0..<9] b p NegInf [] = Some (?best, ?sm, b)"
    using bestMoveFor_loop_refines[OF len ne, of "[0..<9]" p NegInf "[]"]
    by (simp add: free_def)
  have top: "filter (\<lambda>m. snd m = ?best) ?sm = map (\<lambda>i. (i, move_score b p i)) (best_cells b p)"
    by (simp add: best_cells_def filter_map o_def)
  show ?thesis
  proof (cases "best_cells b p = []")
    case True
    then show ?thesis by (simp add: bestMoveFor_def loop Let_def top)
  next
    case False
    then have "rand_index u (length (best_cells b p)) < length (best_cells b p)"
      using rand_index_less[OF u] by simp
    then show ?thesis using False by (simp add: bestMoveFor_def loop Let_def top)
  qed
qed

lemma best_cells_iff:
  "(i \<in> set (best_cells b p)) =
     (i \<in> set (free b) \<and> (\<forall>j \<in> set (free b). move_score b p j \<le> move_score b p i))"
proof
  assume "i \<in> set (best_cells b p)"
  then have i: "i \<in> set (free b)"
    and eq: "move_score b p i = fold max (map (move_score b p) (free b)) NegInf"
    by (auto simp: best_cells_def)
  have "move_score b p j \<le> move_score b p i" if "j \<in> set (free b)" for j
    unfolding eq using that by (intro fold_max_ge) simp
  with i show "i \<in> set (free b) \<and> (\<forall>j \<in> set (free b). move_score b p j \<le> move_score b p i)"
    by blast
next
  assume a: "i \<in> set (free b) \<and> (\<forall>j \<in> set (free b). move_score b p j \<le> move_score b p i)"
  then have ne: "map (move_score b p) (free b) \<noteq> []" by auto
  from fold_max_NegInf_in[OF ne] obtain j where j: "j \<in> set (free b)"
    and eq: "fold max (map (move_score b p) (free b)) NegInf = move_score b p j" by auto
  have "move_score b p i \<le> fold max (map (move_score b p) (free b)) NegInf"
    using a by (intro fold_max_ge) simp
  with a j eq have "move_score b p i = fold max (map (move_score b p) (free b)) NegInf"
    by (metis order_antisym)
  with a show "i \<in> set (best_cells b p)" by (simp add: best_cells_def)
qed

lemma best_cells_empty_iff: "(best_cells b p = []) = (free b = [])"
proof
  assume e: "best_cells b p = []"
  show "free b = []"
  proof (rule ccontr)
    assume "free b \<noteq> []"
    then have ne: "map (move_score b p) (free b) \<noteq> []" by simp
    from fold_max_NegInf_in[OF ne] obtain j where j: "j \<in> set (free b)"
      and eq: "fold max (map (move_score b p) (free b)) NegInf = move_score b p j" by auto
    then have "j \<in> set (best_cells b p)" by (simp add: best_cells_def)
    with e show False by simp
  qed
next
  assume "free b = []"
  then show "best_cells b p = []" by (simp add: best_cells_def)
qed

lemma sg_ge: "- 1 \<le> sg s"
  by (cases s) (auto simp: sgn_if)

lemma outcome_winner: "outcome b cur ai = 0 \<Longrightarrow> winner (calculateWinner b) = None"
  by (cases "winner (calculateWinner b)") (auto simp: outcome.simps[of b] split: if_splits)

lemma sg_move_score:
  assumes len: "length b = 9" and i: "i \<in> set (free b)"
  shows "sg (move_score b p i) = outcome (b[i := Some p]) (opponent p) p"
proof -
  from free_props[OF i] have ib: "i < length b" "b ! i = None" by auto
  from nempty_place[OF ib, of p] nempty_le[of b] len
  have "0 + int (nempty (b[i := Some p])) \<le> 9" by simp
  with sg_minimax_value[of "b[i := Some p]" 0 "opponent p" p] len show ?thesis
    by (simp add: move_score_def)
qed

lemma best_keeps_outcome:
  assumes len: "length b = 9" and w: "winner (calculateWinner b) = None"
    and nf: "\<not> isBoardFull b" and i: "i \<in> set (best_cells b p)"
  shows "outcome (b[i := Some p]) (opponent p) p = outcome b p p"
proof -
  let ?o = "\<lambda>j. outcome (b[j := Some p]) (opponent p) p"
  let ?os = "map ?o (free b)"
  from i have fi: "i \<in> set (free b)"
    and mx: "\<forall>j \<in> set (free b). move_score b p j \<le> move_score b p i"
    by (simp_all add: best_cells_iff)
  have step: "outcome b p p = fold max ?os (- 1)"
    using w nf by (simp add: outcome.simps[of b p p] Let_def)
  have "?o i \<in> set ?os" using fi by simp
  then have le: "?o i \<le> fold max ?os (- 1)" by (rule fold_max_ge)
  have ge: "fold max ?os (- 1) \<le> ?o i"
  proof (cases "fold max ?os (- 1) = - 1")
    case True
    then show ?thesis using sg_ge[of "move_score b p i"] sg_move_score[OF len fi, of p] by simp
  next
    case False
    with fold_max_in[of ?os "- 1"] obtain j where j: "j \<in> set (free b)"
      and eq: "fold max ?os (- 1) = ?o j" by auto
    from mx j have "move_score b p j \<le> move_score b p i" by blast
    from sg_mono[OF this] show ?thesis
      unfolding eq sg_move_score[OF len j] sg_move_score[OF len fi] .
  qed
  from le ge step show ?thesis by simp
qed

lemma nempty_zero_full: "nempty b = 0 \<Longrightarrow> isBoardFull b"
  by (simp add: nempty_def isBoardFull_def filter_empty_conv list_all_iff)

lemma autoplay_draw:
  assumes "length b = 9" and "outcome b p p = 0" and "list_all (\<lambda>u. 0 \<le> u \<and> u < 1) us"
    and "nempty b \<le> length us" and n: "9 \<le> n"
  shows "\<exists>bf. autoplay n Hard Hard us b p = Some bf \<and>
           winner (calculateWinner bf) = None \<and> isBoardFull bf"
  using assms(1-4)
proof (induction us arbitrary: b p)
  case Nil
  then have "isBoardFull b" by (simp add: nempty_zero_full)
  moreover from Nil have "winner (calculateWinner b) = None" by (simp add: outcome_winner)
  ultimately show ?case by (simp add: gameOver_def)
next
  case (Cons u us)
  have w: "winner (calculateWinner b) = None" using Cons.prems by (simp add: outcome_winner)
  show ?case
  proof (cases "isBoardFull b")
    case True
    with w show ?thesis by (simp add: gameOver_def)
  next
    case False
    then have ngo: "\<not> gameOver b" using w by (simp add: gameOver_def)
    have u: "0 \<le> u" "u < 1" using Cons.prems by simp_all
    have len: "length b = 9" by fact
    from False have ne: "best_cells b p \<noteq> []"
      by (simp add: best_cells_empty_iff free_empty_iff[OF len])
    let ?i = "best_cells b p ! rand_index u (length (best_cells b p))"
    have "rand_index u (length (best_cells b p)) < length (best_cells b p)"
      using rand_index_less[OF u] ne by simp
    then have i: "?i \<in> set (best_cells b p)" by (rule nth_mem)
    then have fi: "?i \<in> set (free b)" by (simp add: best_cells_iff)
    from free_props[OF fi] have ib: "?i < length b" "b ! ?i = None" by auto
    have pick: "pickByDifficulty n u b p (if p = PX then Hard else Hard) = Some (Some ?i, b)"
      using bestMoveFor_eq[OF len n u, of p] ne by (simp add: pickByDifficulty_def)
    have o': "outcome (b[?i := Some p]) (opponent p) (opponent p) = 0"
      using best_keeps_outcome[OF len w False i] Cons.prems(2)
      by (simp add: outcome_opponent)
    have "nempty (b[?i := Some p]) \<le> length us"
      using nempty_place[OF ib, of p] Cons.prems(4) by simp
    from Cons.IH[OF _ o' _ this] len Cons.prems(3)
    have "\<exists>bf. autoplay n Hard Hard us (b[?i := Some p]) (opponent p) = Some bf \<and>
           winner (calculateWinner bf) = None \<and> isBoardFull bf" by simp
    then show ?thesis using ngo pick by simp
  qed
qed

section \<open>The evaluator returns the first completed line\<close>

text \<open>A line is won by \<open>m\<close> on a board when its three cells all hold \<open>m\<close>.\<close>

definition line_won :: "board \<Rightarrow> nat \<times> nat \<times> nat \<Rightarrow> player \<Rightarrow> bool" where
  "line_won board l m =
     (case l of (a, b, c) \<Rightarrow>
        cell board a = Some m \<and> cell board b = Some m \<and> cell board c = Some m)"

lemma scan_lines_None:
  "(scan_lines ls board = \<lparr>winner = None, line = None\<rparr>) = (\<forall>l \<in> set ls. \<forall>m. \<not> line_won board l m)"
  by (induction ls board rule: scan_lines.induct) (auto simp: line_won_def)

lemma scan_lines_won:
  "(scan_lines ls board = \<lparr>winner = Some m, line = Some [a, b, c]\<rparr>) =
   (\<exists>k<length ls. ls ! k = (a, b, c) \<and> line_won board (a, b, c) m \<and>
      (\<forall>j<k. \<forall>m'. \<not> line_won board (ls ! j) m'))"
proof (induction ls board rule: scan_lines.induct)
  case (1 board)
  then show ?case by simp
next
  case (2 a' b' c' ls board)
  show ?case
  proof (cases "\<exists>m'. line_won board (a', b', c') m'")
    case True
    then obtain m' where m': "line_won board (a', b', c') m'" ..
    then have s: "scan_lines ((a', b', c') # ls) board = \<lparr>winner = Some m', line = Some [a', b', c']\<rparr>"
      by (simp add: line_won_def)
    have "(\<exists>k<length ((a', b', c') # ls). ((a', b', c') # ls) ! k = (a, b, c) \<and> line_won board (a, b, c) m \<and>
      (\<forall>j<k. \<forall>m'. \<not> line_won board (((a', b', c') # ls) ! j) m')) = ((a',b',c') = (a,b,c) \<and> line_won board (a, b, c) m)"
      (is "?L = ?R")
    proof
      assume ?L
      then obtain k where k: "k<length ((a', b', c') # ls)" "((a', b', c') # ls) ! k = (a, b, c)" "line_won board (a, b, c) m"
        "\<forall>j<k. \<forall>m'. \<not> line_won board (((a', b', c') # ls) ! j) m'" by blast
      have "k = 0"
      proof (rule ccontr)
        assume "k \<noteq> 0"
        then have "0 < k" by simp
        with k(4) have "\<not> line_won board (((a', b', c') # ls) ! 0) m'" by blast
        with m' show False by simp
      qed
      with k show ?R by simp
    next
      assume ?R
      then show ?L by (intro exI[of _ 0]) simp
    qed
    moreover have "line_won board (a, b, c) m \<Longrightarrow> (a',b',c') = (a,b,c) \<Longrightarrow> m' = m"
      using m' by (auto simp: line_won_def)
    ultimately show ?thesis using s m' by (auto simp: line_won_def)
  next
    case False
    then have nw: "\<not> (cell board a' \<noteq> None \<and> cell board a' = cell board b' \<and> cell board a' = cell board c')"
      by (auto simp: line_won_def)
    then have s: "scan_lines ((a', b', c') # ls) board = scan_lines ls board"
      by (simp only: scan_lines.simps if_False)
    note IH = 2[OF nw]
    have eq: "(\<exists>k<length ((a', b', c') # ls). ((a', b', c') # ls) ! k = (a, b, c) \<and> line_won board (a, b, c) m \<and>
      (\<forall>j<k. \<forall>m'. \<not> line_won board (((a', b', c') # ls) ! j) m')) =
      (\<exists>k<length ls. ls ! k = (a, b, c) \<and> line_won board (a, b, c) m \<and>
      (\<forall>j<k. \<forall>m'. \<not> line_won board (ls ! j) m'))" (is "?L = ?R")
    proof
      assume ?L
      then obtain k where k: "k<length ((a', b', c') # ls)" "((a', b', c') # ls) ! k = (a, b, c)" "line_won board (a, b, c) m"
        "\<forall>j<k. \<forall>m'. \<not> line_won board (((a', b', c') # ls) ! j) m'" by blast
      from k False have "k \<noteq> 0" by (cases k) auto
      then obtain k' where k': "k = Suc k'" by (cases k) auto
      have "\<forall>j<k'. \<forall>m'. \<not> line_won board (ls ! j) m'"
      proof (intro allI impI)
        fix j m' assume "j < k'"
        then have "Suc j < k" using k' by simp
        with k(4) have "\<not> line_won board (((a', b', c') # ls) ! Suc j) m'" by blast
        then show "\<not> line_won board (ls ! j) m'" by simp
      qed
      with k k' show ?R by (intro exI[of _ k']) simp
    next
      assume ?R
      then obtain k where k: "k<length ls" "ls ! k = (a, b, c)" "line_won board (a, b, c) m"
        "\<forall>j<k. \<forall>m'. \<not> line_won board (ls ! j) m'" by blast
      have "\<forall>j<Suc k. \<forall>m'. \<not> line_won board (((a', b', c') # ls) ! j) m'"
      proof (intro allI impI)
        fix j m' assume j: "j < Suc k"
        show "\<not> line_won board (((a', b', c') # ls) ! j) m'"
        proof (cases j)
          case 0 then show ?thesis using False by simp
        next
          case (Suc j') then show ?thesis using k(4) j by simp
        qed
      qed
      with k show ?L by (intro exI[of _ "Suc k"]) simp
    qed
    show ?thesis by (simp only: s eq IH)
  qed
qed


text \<open>
  C2. \<^verbatim>\<open>calculateWinner\<close> returns winner \<open>m\<close> with line \<open>[a, b, c]\<close> exactly when
  \<open>(a, b, c)\<close> is the first triple of \<open>WIN_LINES\<close> (rows, then columns, then diagonals)
  whose three cells all hold the mark \<open>m\<close>; it returns no winner and no line exactly when
  no triple is won. The all-empty board has no winner, and the board with \<open>X\<close> on
  cells 1, 4 and 7 is won by \<open>X\<close> through line \<open>[1, 4, 7]\<close>.
\<close>

theorem calculateWinner_first_line:
  "(calculateWinner board = \<lparr>winner = Some m, line = Some [a, b, c]\<rparr>) =
     (\<exists>k<length WIN_LINES. WIN_LINES ! k = (a, b, c) \<and> line_won board (a, b, c) m \<and>
        (\<forall>j<k. \<forall>m'. \<not> line_won board (WIN_LINES ! j) m'))
   \<and> (calculateWinner board = \<lparr>winner = None, line = None\<rparr>) =
     (\<forall>l \<in> set WIN_LINES. \<forall>m'. \<not> line_won board l m')
   \<and> WIN_LINES = [(0, 1, 2), (3, 4, 5), (6, 7, 8), (0, 3, 6), (1, 4, 7), (2, 5, 8),
        (0, 4, 8), (2, 4, 6)]
   \<and> calculateWinner (replicate 9 None) = \<lparr>winner = None, line = None\<rparr>
   \<and> calculateWinner [None, Some PX, None, None, Some PX, None, None, Some PX, None]
       = \<lparr>winner = Some PX, line = Some [1, 4, 7]\<rparr>"
proof -
  have "calculateWinner (replicate 9 None) = \<lparr>winner = None, line = None\<rparr>"
    by (simp add: calculateWinner_def WIN_LINES_def cell_def)
  moreover have "calculateWinner [None, Some PX, None, None, Some PX, None, None, Some PX, None]
       = \<lparr>winner = Some PX, line = Some [1, 4, 7]\<rparr>"
    by (simp add: calculateWinner_def WIN_LINES_def cell_def)
  ultimately show ?thesis
    unfolding calculateWinner_def scan_lines_won scan_lines_None
    by (simp add: WIN_LINES_def)
qed

theorem calculateWinner_first_line_witness:
  "calculateWinner [Some PO, Some PX, None, Some PO, Some PX, None, Some PO, Some PX, None]
     = \<lparr>winner = Some PO, line = Some [0, 3, 6]\<rparr>
   \<and> (\<exists>k<length WIN_LINES. WIN_LINES ! k = (0, 3, 6)
        \<and> line_won [Some PO, Some PX, None, Some PO, Some PX, None, Some PO, Some PX, None] (0, 3, 6) PO
        \<and> (\<forall>j<k. \<forall>m'. \<not> line_won
              [Some PO, Some PX, None, Some PO, Some PX, None, Some PO, Some PX, None]
              (WIN_LINES ! j) m'))"
proof -
  have "calculateWinner [Some PO, Some PX, None, Some PO, Some PX, None, Some PO, Some PX, None]
     = \<lparr>winner = Some PO, line = Some [0, 3, 6]\<rparr>"
    by (simp add: calculateWinner_def WIN_LINES_def cell_def)
  then show ?thesis
    using calculateWinner_first_line
      [of "[Some PO, Some PX, None, Some PO, Some PX, None, Some PO, Some PX, None]" PO 0 3 6]
    by blast
qed

section \<open>Terminal positions of the search\<close>

text \<open>
  C6. On a terminal position \<^verbatim>\<open>minimax\<close> returns \<open>10 - depth\<close> when the evaluator
  reports the perspective player as winner, \<open>- (10 - depth)\<close> when it reports the other
  player, and \<open>0\<close> when the board is full with no winner; the board comes back as it was.
\<close>

theorem minimax_terminal:
  "(winner (calculateWinner board) = Some ai \<longrightarrow>
      minimax (Suc n) board current ai depth = Some (Fin (10 - depth), board))
   \<and> (winner (calculateWinner board) = Some (opponent ai) \<longrightarrow>
      minimax (Suc n) board current ai depth = Some (Fin (- (10 - depth)), board))
   \<and> (winner (calculateWinner board) = None \<and> isBoardFull board \<longrightarrow>
      minimax (Suc n) board current ai depth = Some (Fin 0, board))"
  by (cases ai) auto

theorem minimax_terminal_witness:
  "winner (calculateWinner [Some PX, Some PX, Some PX, Some PO, Some PO, None, None, None, None])
     = Some PX
   \<and> minimax 1 [Some PX, Some PX, Some PX, Some PO, Some PO, None, None, None, None] PO PX 4
     = Some (Fin 6, [Some PX, Some PX, Some PX, Some PO, Some PO, None, None, None, None])
   \<and> winner (calculateWinner [Some PX, Some PX, Some PX, Some PO, Some PO, None, None, None, None])
     = Some (opponent PO)
   \<and> minimax 1 [Some PX, Some PX, Some PX, Some PO, Some PO, None, None, None, None] PO PO 4
     = Some (Fin (- 6), [Some PX, Some PX, Some PX, Some PO, Some PO, None, None, None, None])
   \<and> winner (calculateWinner
        [Some PX, Some PO, Some PX, Some PO, Some PX, Some PO, Some PO, Some PX, Some PO]) = None
   \<and> isBoardFull [Some PX, Some PO, Some PX, Some PO, Some PX, Some PO, Some PO, Some PX, Some PO]
   \<and> minimax 1 [Some PX, Some PO, Some PX, Some PO, Some PX, Some PO, Some PO, Some PX, Some PO]
        PX PO 8
     = Some (Fin 0, [Some PX, Some PO, Some PX, Some PO, Some PX, Some PO, Some PO, Some PX, Some PO])"
proof -
  let ?w = "[Some PX, Some PX, Some PX, Some PO, Some PO, None, None, None, None]"
  let ?d = "[Some PX, Some PO, Some PX, Some PO, Some PX, Some PO, Some PO, Some PX, Some PO]"
  have w: "winner (calculateWinner ?w) = Some PX"
    by (simp add: calculateWinner_def WIN_LINES_def cell_def)
  have d: "winner (calculateWinner ?d) = None" "isBoardFull ?d"
    by (simp_all add: calculateWinner_def WIN_LINES_def cell_def isBoardFull_def)
  show ?thesis
    using w d minimax_terminal [of ?w PX 0 PO 4] minimax_terminal [of ?w PO 0 PO 4]
      minimax_terminal [of ?d PO 0 PX 8]
    by simp
qed

section \<open>The difficulty tiers in closed form\<close>

text \<open>
  \<open>winning_cells b pl\<close> lists, in index order, the immediate winning moves of \<open>pl\<close>: the
  empty cells that, filled with the mark of \<open>pl\<close>, make \<^verbatim>\<open>calculateWinner\<close> report \<open>pl\<close>.
  \<open>mediumMove_rule\<close> is the priority list of the medium tier as the specification words
  it, to be compared with \<^verbatim>\<open>mediumMove\<close>.
\<close>

definition winning_cells :: "board \<Rightarrow> player \<Rightarrow> nat list" where
  "winning_cells b pl =
     filter (\<lambda>i. winner (calculateWinner (b[i := Some pl])) = Some pl) (free b)"

definition mediumMove_rule :: "real \<Rightarrow> board \<Rightarrow> player \<Rightarrow> nat option" where
  "mediumMove_rule u b pl =
     (case winning_cells b pl of
        i # _ \<Rightarrow> Some i
      | [] \<Rightarrow>
          (case winning_cells b (opponent pl) of
             i # _ \<Rightarrow> Some i
           | [] \<Rightarrow>
               if cell b 4 = None then Some 4
               else
                 (let corners = filter (\<lambda>i. cell b i = None) [0, 2, 6, 8] in
                  if corners \<noteq> [] then Some (corners ! rand_index u (length corners))
                  else if free b \<noteq> [] then Some (free b ! rand_index u (length (free b)))
                  else None)))"

lemma empties_free: "length b = 9 \<Longrightarrow> empties b = free b"
  unfolding empties_def free_def by (rule filter_cong) auto

lemma find_filter: "find P xs = (case filter P xs of [] \<Rightarrow> None | x # _ \<Rightarrow> Some x)"
  by (induction xs) simp_all

lemma findWinningMove_loop_eq:
  "\<forall>i \<in> set js. i < length b \<and> b ! i = None \<Longrightarrow>
   findWinningMove_loop js b pl =
     (find (\<lambda>i. winner (calculateWinner (b[i := Some pl])) = Some pl) js, b)"
proof (induction js)
  case Nil
  then show ?case by simp
next
  case (Cons i js)
  then have undo: "b[i := None] = b" by (simp add: list_update_same_conv)
  from Cons show ?case by (simp add: Let_def undo)
qed

lemma findWinningMove_eq:
  "length b = 9 \<Longrightarrow>
   findWinningMove b pl = (case winning_cells b pl of [] \<Rightarrow> None | i # _ \<Rightarrow> Some i, b)"
proof -
  assume len: "length b = 9"
  have "\<forall>i \<in> set (free b). i < length b \<and> b ! i = None" by (simp add: free_def)
  from findWinningMove_loop_eq[OF this, of pl] show ?thesis
    by (simp add: findWinningMove_def empties_free[OF len] find_filter winning_cells_def)
qed

lemma mediumMove_eq:
  assumes len: "length b = 9"
  shows "mediumMove u b pl = (mediumMove_rule u b pl, b)"
proof -
  have c: "filter (\<lambda>i. i < length b \<and> b ! i = None) [0, 2, 6, 8] =
           filter (\<lambda>i. cell b i = None) [0, 2, 6, 8]"
    using len by (simp add: cell_def)
  have c': "filter (\<lambda>i. i < 9 \<and> b ! i = None) [0, 2, 6, 8] =
           filter (\<lambda>i. cell b i = None) [0, 2, 6, 8]"
    using len by (simp add: cell_def)
  have r: "randomMove u b =
             (if free b \<noteq> [] then Some (free b ! rand_index u (length (free b))) else None)"
    by (simp add: randomMove_def empties_free[OF len] Let_def)
  show ?thesis
    using len
    by (auto simp add: mediumMove_def mediumMove_rule_def findWinningMove_eq[OF len] c c' r Let_def
          cell_def[of b 4] split: list.splits simp del: filter.simps)
qed

lemma winning_cells_free: "i \<in> set (winning_cells b pl) \<Longrightarrow> i \<in> set (free b)"
  by (simp add: winning_cells_def)

lemma free_iff: "length b = 9 \<Longrightarrow> (i \<in> set (free b)) = (i < 9 \<and> cell b i = None)"
  by (auto simp: free_def cell_def)

lemma randomMove_free:
  assumes len: "length b = 9" and u: "0 \<le> u" "u < 1" and r: "randomMove u b = Some i"
  shows "i \<in> set (free b)"
proof -
  from r have ne: "free b \<noteq> []" and i: "i = free b ! rand_index u (length (free b))"
    by (auto simp: randomMove_def empties_free[OF len] Let_def split: if_splits)
  from rand_index_less[OF u, of "length (free b)"] ne
  have "rand_index u (length (free b)) < length (free b)" by simp
  then show ?thesis unfolding i by (rule nth_mem)
qed

lemma mediumMove_rule_free:
  assumes len: "length b = 9" and u: "0 \<le> u" "u < 1" and r: "mediumMove_rule u b pl = Some i"
  shows "i \<in> set (free b)"
proof -
  let ?cs = "filter (\<lambda>i. cell b i = None) [0, 2, 6, 8]"
  consider (win) j js where "winning_cells b pl = j # js" "i = j"
    | (block) j js where "winning_cells b (opponent pl) = j # js" "i = j"
    | (centre) "cell b 4 = None" "i = 4"
    | (corner) "?cs \<noteq> []" "i = ?cs ! rand_index u (length ?cs)"
    | (any) "free b \<noteq> []" "i = free b ! rand_index u (length (free b))"
    using r by (auto simp: mediumMove_rule_def Let_def split: list.splits if_splits)
  then show ?thesis
  proof cases
    case win
    then have "i \<in> set (winning_cells b pl)" by simp
    then show ?thesis by (rule winning_cells_free)
  next
    case block
    then have "i \<in> set (winning_cells b (opponent pl))" by simp
    then show ?thesis by (rule winning_cells_free)
  next
    case centre
    then show ?thesis by (simp add: free_iff[OF len])
  next
    case corner
    from rand_index_less[OF u, of "length ?cs"] corner
    have "rand_index u (length ?cs) < length ?cs" by simp
    then have "i \<in> set ?cs" unfolding corner(2) by (rule nth_mem)
    then have "i \<in> set [0, 2, 6, 8] \<and> cell b i = None" unfolding set_filter by simp
    then show ?thesis by (auto simp: free_iff[OF len])
  next
    case any
    from rand_index_less[OF u, of "length (free b)"] any
    have "rand_index u (length (free b)) < length (free b)" by simp
    then show ?thesis unfolding any(2) by (rule nth_mem)
  qed
qed

lemma bestMoveFor_free:
  assumes len: "length b = 9" and n: "9 \<le> n" and u: "0 \<le> u" "u < 1"
    and r: "bestMoveFor n u b pl = Some (Some i, b')"
  shows "i \<in> set (best_cells b pl) \<and> b' = b"
proof -
  from r bestMoveFor_eq[OF len n u, of pl]
  have ne: "best_cells b pl \<noteq> []"
    and i: "i = best_cells b pl ! rand_index u (length (best_cells b pl))" and b': "b' = b"
    by (auto split: if_splits)
  from rand_index_less[OF u, of "length (best_cells b pl)"] ne
  have "rand_index u (length (best_cells b pl)) < length (best_cells b pl)" by simp
  then have "i \<in> set (best_cells b pl)" unfolding i by (rule nth_mem)
  with b' show ?thesis by simp
qed


lemma rand_index_one: "0 \<le> u \<Longrightarrow> u < 1 \<Longrightarrow> rand_index u (Suc 0) = 0"
  using rand_index_less[of u "Suc 0"] by simp

lemma scenario1_best_cells:
  "best_cells [Some PX, Some PX, None, Some PO, Some PO, None, None, None, None] PX = [2]"
  by code_simp

lemma scenario1_bestMoveFor:
  "9 \<le> n \<Longrightarrow> 0 \<le> u \<Longrightarrow> u < 1 \<Longrightarrow>
   bestMoveFor n u [Some PX, Some PX, None, Some PO, Some PO, None, None, None, None] PX =
     Some (Some 2, [Some PX, Some PX, None, Some PO, Some PO, None, None, None, None])"
  by (simp add: bestMoveFor_eq scenario1_best_cells rand_index_one)

lemma scenario1_winning_cells:
  "winning_cells [Some PX, Some PX, None, Some PO, Some PO, None, None, None, None] PX = [2]"
  by code_simp

lemma scenario1_free:
  "free [Some PX, Some PX, None, Some PO, Some PO, None, None, None, None] = [2, 5, 6, 7, 8]"
  by code_simp

lemma rand_index_zero: "rand_index 0 n = 0"
  by (simp add: rand_index_def)


section \<open>Returned moves are legal\<close>

text \<open>
  C10. On a nine-cell board, for every value \<open>u\<close> in \<open>[0, 1)\<close> of \<^verbatim>\<open>Math.random()\<close>,
  an index returned by \<^verbatim>\<open>bestMoveFor\<close>, \<^verbatim>\<open>mediumMove\<close>, \<^verbatim>\<open>randomMove\<close>,
  \<^verbatim>\<open>findWinningMove\<close> or \<^verbatim>\<open>pickByDifficulty\<close> (at any difficulty) is below nine
  and names an empty cell of the board that was passed in.
\<close>

theorem moves_are_legal:
  "length b = 9 \<Longrightarrow> 9 \<le> n \<Longrightarrow> 0 \<le> u \<Longrightarrow> u < 1 \<Longrightarrow>
     (bestMoveFor n u b pl = Some (Some i, b') \<longrightarrow> i < 9 \<and> cell b i = None)
   \<and> (mediumMove u b pl = (Some i, b') \<longrightarrow> i < 9 \<and> cell b i = None)
   \<and> (randomMove u b = Some i \<longrightarrow> i < 9 \<and> cell b i = None)
   \<and> (findWinningMove b pl = (Some i, b') \<longrightarrow> i < 9 \<and> cell b i = None)
   \<and> (pickByDifficulty n u b pl diff = Some (Some i, b') \<longrightarrow> i < 9 \<and> cell b i = None)"
proof -
  assume len: "length b = 9" and n: "9 \<le> n" and u: "0 \<le> u" "u < 1"
  have best: "i \<in> set (free b)" if "bestMoveFor n u b pl = Some (Some i, b')"
    using bestMoveFor_free[OF len n u that] by (simp add: best_cells_iff)
  have medium: "i \<in> set (free b)" if "mediumMove u b pl = (Some i, b')"
    using that mediumMove_rule_free[OF len u, of pl i] by (auto simp: mediumMove_eq[OF len])
  have random: "i \<in> set (free b)" if "randomMove u b = Some i"
    using randomMove_free[OF len u that] .
  have win: "i \<in> set (free b)" if "findWinningMove b pl = (Some i, b')"
  proof -
    from that have "i \<in> set (winning_cells b pl)"
      by (auto simp: findWinningMove_eq[OF len] split: list.splits)
    then show ?thesis by (rule winning_cells_free)
  qed
  have pick: "i \<in> set (free b)" if "pickByDifficulty n u b pl diff = Some (Some i, b')"
    using that best medium random
    by (cases diff) (auto simp: pickByDifficulty_def)
  from best medium random win pick show ?thesis
    by (simp add: free_iff[OF len])
qed

theorem moves_are_legal_witness:
  "length [Some PX, Some PX, None, Some PO, Some PO, None, None, None, None] = 9
   \<and> (9::nat) \<le> 9 \<and> (0::real) \<le> 0 \<and> (0::real) < 1
   \<and> bestMoveFor 9 0 [Some PX, Some PX, None, Some PO, Some PO, None, None, None, None] PX
       = Some (Some 2, [Some PX, Some PX, None, Some PO, Some PO, None, None, None, None])
   \<and> mediumMove 0 [Some PX, Some PX, None, Some PO, Some PO, None, None, None, None] PX
       = (Some 2, [Some PX, Some PX, None, Some PO, Some PO, None, None, None, None])
   \<and> randomMove 0 [Some PX, Some PX, None, Some PO, Some PO, None, None, None, None] = Some 2
   \<and> findWinningMove [Some PX, Some PX, None, Some PO, Some PO, None, None, None, None] PX
       = (Some 2, [Some PX, Some PX, None, Some PO, Some PO, None, None, None, None])
   \<and> pickByDifficulty 9 0 [Some PX, Some PX, None, Some PO, Some PO, None, None, None, None]
         PX Hard
       = Some (Some 2, [Some PX, Some PX, None, Some PO, Some PO, None, None, None, None])
   \<and> (2::nat) < 9
   \<and> cell [Some PX, Some PX, None, Some PO, Some PO, None, None, None, None] 2 = None"
proof -
  let ?b = "[Some PX, Some PX, None, Some PO, Some PO, None, None, None, None]"
  have len: "length ?b = 9" by simp
  have best: "bestMoveFor 9 0 ?b PX = Some (Some 2, ?b)"
    by (simp add: scenario1_bestMoveFor)
  have medium: "mediumMove 0 ?b PX = (Some 2, ?b)"
    by (simp add: mediumMove_eq mediumMove_rule_def scenario1_winning_cells)
  have random: "randomMove 0 ?b = Some 2"
    by (simp add: randomMove_def empties_free scenario1_free rand_index_zero)
  have win: "findWinningMove ?b PX = (Some 2, ?b)"
    by (simp add: findWinningMove_eq scenario1_winning_cells)
  have pick: "pickByDifficulty 9 0 ?b PX Hard = Some (Some 2, ?b)"
    by (simp add: pickByDifficulty_def best)
  show ?thesis
    using moves_are_legal [of ?b 9 0 PX 2 ?b Hard] best medium random win pick
    by simp
qed


section \<open>The search leaves the board as it found it\<close>

text \<open>
  C8. On a nine-cell board, with a recursion bound above nine, \<^verbatim>\<open>minimax\<close> and
  \<^verbatim>\<open>bestMoveFor\<close> return, and the board they hand back is the board they were given:
  every placement made during the search has been undone.
\<close>

theorem search_restores_board:
  "length board = 9 \<Longrightarrow> 9 < n \<Longrightarrow> 0 \<le> u \<Longrightarrow> u < 1 \<Longrightarrow>
     (\<exists>v. minimax n board current ai depth = Some (v, board))
   \<and> (\<exists>r. bestMoveFor n u board player = Some (r, board))"
proof -
  assume len: "length board = 9" and n: "9 < n" and u: "0 \<le> u" "u < 1"
  have "nempty board < n" using nempty_le[of board] len n by simp
  from minimax_refines[OF len this]
  have "\<exists>v. minimax n board current ai depth = Some (v, board)" by blast
  moreover from n have "9 \<le> n" by simp
  from bestMoveFor_eq[OF len this u]
  have "\<exists>r. bestMoveFor n u board player = Some (r, board)" by blast
  ultimately show ?thesis ..
qed

theorem search_restores_board_witness:
  "length [Some PX, Some PX, None, Some PO, Some PO, None, None, None, None] = 9
   \<and> (9::nat) < 10 \<and> (0::real) \<le> 1 / 2 \<and> (1 / 2 ::real) < 1
   \<and> (\<exists>v. minimax 10 [Some PX, Some PX, None, Some PO, Some PO, None, None, None, None]
              PO PX 3
            = Some (v, [Some PX, Some PX, None, Some PO, Some PO, None, None, None, None]))
   \<and> (\<exists>r. bestMoveFor 10 (1 / 2)
              [Some PX, Some PX, None, Some PO, Some PO, None, None, None, None] PX
            = Some (r, [Some PX, Some PX, None, Some PO, Some PO, None, None, None, None]))"
  using search_restores_board
    [of "[Some PX, Some PX, None, Some PO, Some PO, None, None, None, None]" 10 "1 / 2" PO PX 3 PX]
  by simp


section \<open>The chosen move has the best score\<close>

text \<open>
  C5. Whatever the tie-break draws, an index \<open>i\<close> that \<^verbatim>\<open>bestMoveFor\<close> returns is
  an empty cell, and its top-level score (\<^verbatim>\<open>minimax\<close> of the board with cell \<open>i\<close>
  filled by the player, the opponent to move, depth 0) is at least the top-level score
  of every empty cell: it is the maximum of these scores.
\<close>

theorem bestMoveFor_max_score:
  "length board = 9 \<Longrightarrow> 9 \<le> n \<Longrightarrow> 0 \<le> u \<Longrightarrow> u < 1 \<Longrightarrow>
   bestMoveFor n u board player = Some (Some i, board') \<Longrightarrow>
   i < 9 \<and> cell board i = None
   \<and> (\<exists>s. minimax n (board[i := Some player]) (opponent player) player 0
             = Some (s, board[i := Some player])
          \<and> (\<forall>j<9. cell board j = None \<longrightarrow>
                (\<exists>t. minimax n (board[j := Some player]) (opponent player) player 0
                        = Some (t, board[j := Some player])
                     \<and> t \<le> s)))"
proof -
  assume len: "length board = 9" and n: "9 \<le> n" and u: "0 \<le> u" "u < 1"
    and r: "bestMoveFor n u board player = Some (Some i, board')"
  from bestMoveFor_free[OF len n u r] have i: "i \<in> set (best_cells board player)" by simp
  then have fi: "i \<in> set (free board)"
    and mx: "\<forall>j \<in> set (free board). move_score board player j \<le> move_score board player i"
    by (simp_all add: best_cells_iff)
  have call: "minimax n (board[j := Some player]) (opponent player) player 0 =
                Some (move_score board player j, board[j := Some player])"
    if j: "j \<in> set (free board)" for j
  proof -
    from free_props[OF j] have jb: "j < length board" "board ! j = None" by auto
    from nempty_place[OF jb, of player] nempty_le[of board] len n
    have "nempty (board[j := Some player]) < n" by simp
    with minimax_refines[of "board[j := Some player]" n "opponent player" player 0] len
    show ?thesis by (simp add: move_score_def)
  qed
  have "\<exists>t. minimax n (board[j := Some player]) (opponent player) player 0
            = Some (t, board[j := Some player]) \<and> t \<le> move_score board player i"
    if "j < 9" "cell board j = None" for j
  proof -
    from that have j: "j \<in> set (free board)" by (simp add: free_iff[OF len])
    with call[OF j] mx show ?thesis by blast
  qed
  with call[OF fi] fi show ?thesis by (auto simp: free_iff[OF len])
qed

theorem bestMoveFor_max_score_witness:
  "length [Some PX, Some PX, None, Some PO, Some PO, None, None, None, None] = 9
   \<and> (9::nat) \<le> 9 \<and> (0::real) \<le> 1 / 2 \<and> (1 / 2 ::real) < 1
   \<and> bestMoveFor 9 (1 / 2) [Some PX, Some PX, None, Some PO, Some PO, None, None, None, None] PX
       = Some (Some 2, [Some PX, Some PX, None, Some PO, Some PO, None, None, None, None])
   \<and> (\<exists>s. minimax 9 ([Some PX, Some PX, None, Some PO, Some PO, None, None, None, None]
                        [2 := Some PX]) (opponent PX) PX 0
             = Some (s, [Some PX, Some PX, None, Some PO, Some PO, None, None, None, None]
                        [2 := Some PX])
          \<and> (\<forall>j<9. cell [Some PX, Some PX, None, Some PO, Some PO, None, None, None, None] j
                       = None \<longrightarrow>
                (\<exists>t. minimax 9 ([Some PX, Some PX, None, Some PO, Some PO, None, None, None, None]
                                  [j := Some PX]) (opponent PX) PX 0
                        = Some (t, [Some PX, Some PX, None, Some PO, Some PO, None, None, None, None]
                                  [j := Some PX])
                     \<and> t \<le> s)))"
proof -
  let ?b = "[Some PX, Some PX, None, Some PO, Some PO, None, None, None, None]"
  have best: "bestMoveFor 9 (1 / 2) ?b PX = Some (Some 2, ?b)"
    by (simp add: scenario1_bestMoveFor)
  from bestMoveFor_max_score [of ?b 9 "1 / 2" PX 2 ?b] best
  show ?thesis by simp
qed


section \<open>No move exactly on a full board\<close>

text \<open>
  C9. \<^verbatim>\<open>bestMoveFor\<close> returns \<^verbatim>\<open>null\<close> if and only if the board has no empty cell
  (\<^verbatim>\<open>isBoardFull\<close>); with an empty cell left it returns an index, also on a board
  that already holds a completed line.
\<close>

theorem bestMoveFor_none_iff:
  "length board = 9 \<Longrightarrow> 9 \<le> n \<Longrightarrow> 0 \<le> u \<Longrightarrow> u < 1 \<Longrightarrow>
   \<exists>r. bestMoveFor n u board player = Some (r, board)
     \<and> (r = None) = (\<forall>i<9. cell board i \<noteq> None)
     \<and> (r = None) = isBoardFull board"
proof -
  assume len: "length board = 9" and n: "9 \<le> n" and u: "0 \<le> u" "u < 1"
  have "(best_cells board player = []) = isBoardFull board"
    by (simp add: best_cells_empty_iff free_empty_iff[OF len])
  moreover have "isBoardFull board = (\<forall>i<9. cell board i \<noteq> None)"
    using len by (auto simp: isBoardFull_def list_all_length cell_def)
  ultimately show ?thesis using bestMoveFor_eq[OF len n u, of player] by auto
qed

theorem bestMoveFor_none_iff_witness:
  "length [Some PX, Some PO, Some PX, Some PO, Some PX, Some PO, Some PO, Some PX, Some PO] = 9
   \<and> length [Some PX, Some PX, Some PX, Some PO, Some PO, None, None, None, None] = 9
   \<and> (9::nat) \<le> 9 \<and> (0::real) \<le> 0 \<and> (0::real) < 1
   \<and> bestMoveFor 9 0
        [Some PX, Some PO, Some PX, Some PO, Some PX, Some PO, Some PO, Some PX, Some PO] PX
       = Some (None, [Some PX, Some PO, Some PX, Some PO, Some PX, Some PO, Some PO, Some PX, Some PO])
   \<and> winner (calculateWinner [Some PX, Some PX, Some PX, Some PO, Some PO, None, None, None, None])
       = Some PX
   \<and> (\<exists>i. bestMoveFor 9 0 [Some PX, Some PX, Some PX, Some PO, Some PO, None, None, None, None] PO
         = Some (Some i, [Some PX, Some PX, Some PX, Some PO, Some PO, None, None, None, None]))"
proof -
  let ?d = "[Some PX, Some PO, Some PX, Some PO, Some PX, Some PO, Some PO, Some PX, Some PO]"
  let ?w = "[Some PX, Some PX, Some PX, Some PO, Some PO, None, None, None, None]"
  have d: "isBoardFull ?d" and w: "\<not> isBoardFull ?w"
    by (simp_all add: isBoardFull_def)
  have x: "winner (calculateWinner ?w) = Some PX"
    by (simp add: calculateWinner_def WIN_LINES_def cell_def)
  from bestMoveFor_none_iff [of ?d 9 0 PX] bestMoveFor_none_iff [of ?w 9 0 PO] d w x
  show ?thesis by auto
qed

section \<open>A single immediate win is taken\<close>

lemma Fin_less [simp]: "(Fin a < Fin b) = (a < b)"
  by (auto simp: less_score_def)

lemma distinct_free: "distinct (free b)"
  by (simp add: free_def)

lemma filter_single_iff:
  "distinct xs \<Longrightarrow>
   (filter P xs = [i]) = (i \<in> set xs \<and> P i \<and> (\<forall>j \<in> set xs. P j \<longrightarrow> j = i))"
proof (induction xs)
  case Nil
  then show ?case by simp
next
  case (Cons x xs)
  then have IH: "(filter P xs = [i]) = (i \<in> set xs \<and> P i \<and> (\<forall>j \<in> set xs. P j \<longrightarrow> j = i))"
    and x: "x \<notin> set xs" by simp_all
  show ?case
  proof (cases "P x")
    case True
    have "(filter P xs = []) = (\<forall>j \<in> set xs. \<not> P j)" by (simp add: filter_empty_conv)
    with True x show ?thesis by auto
  next
    case False
    with IH x show ?thesis by auto
  qed
qed

lemma winning_cells_single_iff:
  assumes len: "length b = 9"
  shows "(winning_cells b pl = [i]) =
           (i < 9 \<and> cell b i = None \<and> winner (calculateWinner (b[i := Some pl])) = Some pl
            \<and> (\<forall>j<9. cell b j = None \<and> winner (calculateWinner (b[j := Some pl])) = Some pl
                  \<longrightarrow> j = i))"
  unfolding winning_cells_def filter_single_iff[OF distinct_free]
  by (simp only: free_iff[OF len] Ball_def) blast

lemma minimax_value_below:
  assumes len: "length b = 9" and ne: "nempty b \<le> 8"
    and w: "winner (calculateWinner b) \<noteq> Some ai"
  shows "minimax_value b cur ai 0 < Fin 10"
proof (cases "winner (calculateWinner b)")
  case (Some w')
  with w show ?thesis by (simp add: minimax_value.simps[of b])
next
  case None
  show ?thesis
  proof (cases "isBoardFull b")
    case True
    with None show ?thesis by (simp add: minimax_value.simps[of b])
  next
    case False
    let ?scores = "map (\<lambda>i. minimax_value (b[i := Some cur]) (opponent cur) ai (0 + 1)) (free b)"
    have nes: "?scores \<noteq> []" using False free_empty_iff[OF len] by simp
    have "minimax_value b cur ai 0 \<in> set ?scores"
      using fold_max_NegInf_in[OF nes] fold_min_PosInf_in[OF nes] None False
      by (cases "cur = ai") (auto simp: minimax_value.simps[of b] Let_def)
    then obtain k where k: "k \<in> set (free b)"
      and eq: "minimax_value b cur ai 0 = minimax_value (b[k := Some cur]) (opponent cur) ai 1"
      by auto
    from free_props[OF k] have kb: "k < length b" "b ! k = None" by auto
    from nempty_place[OF kb, of cur] ne
    have "1 + int (nempty (b[k := Some cur])) \<le> 9" by simp
    from minimax_value_range[OF _ this, of "opponent cur" ai] len
    obtain v where "minimax_value (b[k := Some cur]) (opponent cur) ai 1 = Fin v"
      and "v = 0 \<or> \<bar>v\<bar> \<le> 10 - 1" by auto
    then show ?thesis unfolding eq by auto
  qed
qed

lemma distinct_singleton: "distinct xs \<Longrightarrow> set xs = {i} \<Longrightarrow> xs = [i]"
proof (cases xs)
  case Nil
  assume "set xs = {i}"
  with Nil show ?thesis by simp
next
  case (Cons x ys)
  assume d: "distinct xs" and s: "set xs = {i}"
  from s Cons have x: "x = i" and ys: "set ys \<subseteq> {i}" by auto
  from d Cons x have "i \<notin> set ys" by simp
  with ys have "ys = []" by (cases ys) auto
  with Cons x show ?thesis by simp
qed

lemma immediate_win_best:
  assumes len: "length b = 9" and wc: "winning_cells b pl = [i]"
  shows "best_cells b pl = [i]"
proof -
  from wc have i: "i \<in> set (free b)" "winner (calculateWinner (b[i := Some pl])) = Some pl"
    and uniq: "\<forall>j \<in> set (free b). winner (calculateWinner (b[j := Some pl])) = Some pl \<longrightarrow> j = i"
    unfolding winning_cells_def filter_single_iff[OF distinct_free] by auto
  have si: "move_score b pl i = Fin 10"
    using i(2) by (simp add: move_score_def minimax_value.simps[of "b[i := Some pl]"])
  have lt: "move_score b pl j < Fin 10" if j: "j \<in> set (free b)" "j \<noteq> i" for j
  proof -
    from free_props[OF j(1)] have jb: "j < length b" "b ! j = None" by auto
    from nempty_place[OF jb, of pl] nempty_le[of b] len
    have ne: "nempty (b[j := Some pl]) \<le> 8" by simp
    from uniq j have "winner (calculateWinner (b[j := Some pl])) \<noteq> Some pl" by blast
    from minimax_value_below[OF _ ne this] len show ?thesis by (simp add: move_score_def)
  qed
  have "set (best_cells b pl) = {i}"
  proof (intro equalityI subsetI)
    fix k assume "k \<in> set (best_cells b pl)"
    then have k: "k \<in> set (free b)" and "move_score b pl i \<le> move_score b pl k"
      using i(1) by (auto simp: best_cells_iff)
    with si lt[of k] show "k \<in> {i}" by (cases "k = i") auto
  next
    fix k assume "k \<in> {i}"
    then have "k = i" by simp
    moreover have "move_score b pl j \<le> move_score b pl i" if "j \<in> set (free b)" for j
      using lt[OF that] si by (cases "j = i") auto
    ultimately show "k \<in> set (best_cells b pl)" using i(1) by (simp add: best_cells_iff)
  qed
  moreover have "distinct (best_cells b pl)" by (simp add: best_cells_def distinct_free)
  ultimately show ?thesis by (intro distinct_singleton)
qed

lemma immediate_win_taken:
  assumes len: "length b = 9" and n: "9 \<le> n" and u: "0 \<le> u" "u < 1"
    and wc: "winning_cells b pl = [i]"
  shows "mediumMove u b pl = (Some i, b)" "bestMoveFor n u b pl = Some (Some i, b)"
proof -
  show "mediumMove u b pl = (Some i, b)"
    by (simp add: mediumMove_eq[OF len] mediumMove_rule_def wc)
  show "bestMoveFor n u b pl = Some (Some i, b)"
    by (simp add: bestMoveFor_eq[OF len n u] immediate_win_best[OF len wc] rand_index_one[OF u])
qed

text \<open>
  C3. When exactly one empty cell \<open>i\<close>, filled with the acting player's mark, makes
  \<^verbatim>\<open>calculateWinner\<close> report the acting player as winner, \<^verbatim>\<open>mediumMove\<close> and
  \<^verbatim>\<open>bestMoveFor\<close> both return \<open>i\<close>, whatever the random draw. On the board
  \<open>[X, X, _, O, O, _, _, _, _]\<close> with \<open>X\<close> to move, \<^verbatim>\<open>bestMoveFor\<close> returns index 2.
\<close>

theorem single_winning_move_played:
  "length b = 9 \<Longrightarrow> 9 \<le> n \<Longrightarrow> 0 \<le> u \<Longrightarrow> u < 1 \<Longrightarrow>
     (i < 9 \<and> cell b i = None \<and> winner (calculateWinner (b[i := Some pl])) = Some pl
        \<and> (\<forall>j<9. cell b j = None \<and> winner (calculateWinner (b[j := Some pl])) = Some pl
              \<longrightarrow> j = i)
      \<longrightarrow> mediumMove u b pl = (Some i, b) \<and> bestMoveFor n u b pl = Some (Some i, b))
   \<and> bestMoveFor n u [Some PX, Some PX, None, Some PO, Some PO, None, None, None, None] PX
       = Some (Some 2, [Some PX, Some PX, None, Some PO, Some PO, None, None, None, None])"
proof -
  assume len: "length b = 9" and n: "9 \<le> n" and u: "0 \<le> u" "u < 1"
  show ?thesis
    using immediate_win_taken[OF len n u, of pl i] scenario1_bestMoveFor[OF n u]
    unfolding winning_cells_single_iff[OF len] by blast
qed

theorem single_winning_move_played_witness:
  "length [Some PO, None, Some PX, None, Some PX, None, None, None, Some PO] = 9
   \<and> (9::nat) \<le> 9 \<and> (0::real) \<le> 3 / 4 \<and> (3 / 4 ::real) < 1
   \<and> (6::nat) < 9
   \<and> cell [Some PO, None, Some PX, None, Some PX, None, None, None, Some PO] 6 = None
   \<and> winner (calculateWinner
         ([Some PO, None, Some PX, None, Some PX, None, None, None, Some PO][6 := Some PX]))
       = Some PX
   \<and> \<not> (\<exists>j<9. cell [Some PO, None, Some PX, None, Some PX, None, None, None, Some PO] j = None
           \<and> winner (calculateWinner
                ([Some PO, None, Some PX, None, Some PX, None, None, None, Some PO][j := Some PX]))
              = Some PX
           \<and> j \<noteq> 6)
   \<and> mediumMove (3 / 4) [Some PO, None, Some PX, None, Some PX, None, None, None, Some PO] PX
       = (Some 6, [Some PO, None, Some PX, None, Some PX, None, None, None, Some PO])
   \<and> bestMoveFor 9 (3 / 4) [Some PO, None, Some PX, None, Some PX, None, None, None, Some PO] PX
       = Some (Some 6, [Some PO, None, Some PX, None, Some PX, None, None, None, Some PO])"
proof -
  let ?b = "[Some PO, None, Some PX, None, Some PX, None, None, None, Some PO]"
  have len: "length ?b = 9" by simp
  have wc: "winning_cells ?b PX = [6]" by code_simp
  from wc [unfolded winning_cells_single_iff[OF len]]
    single_winning_move_played [of ?b 9 "3 / 4" 6 PX]
  show ?thesis by auto
qed

section \<open>The priority list of the medium tier\<close>

lemma rand_index_interval:
  assumes u: "0 \<le> u" and k: "k < n"
  shows "(rand_index u n = k) = (real k / real n \<le> u \<and> u < real (k + 1) / real n)"
proof -
  have n: "0 < real n" using k by simp
  have nn: "0 \<le> u * real n" using u by simp
  have e: "real (k + 1) = real k + 1" by simp
  have "(rand_index u n = k) = (\<lfloor>u * real n\<rfloor> = int k)"
    using nn by (auto simp: rand_index_def)
  also have "\<dots> = (real k \<le> u * real n \<and> u * real n < real k + 1)"
    by (auto simp: floor_eq_iff)
  also have "\<dots> = (real k / real n \<le> u \<and> u < real (k + 1) / real n)"
    by (simp only: pos_divide_le_eq[OF n] pos_less_divide_eq[OF n] e)
  finally show ?thesis .
qed

text \<open>
  C7. \<^verbatim>\<open>mediumMove\<close> returns what \<open>mediumMove_rule\<close> prescribes and leaves the board
  as it was: the first immediate winning cell of the acting player; else the first
  immediate winning cell of the opponent; else the centre, index 4, if it is empty; else
  an empty corner among 0, 2, 6, 8; else an empty cell; and \<^verbatim>\<open>null\<close> exactly when no
  cell is empty. Among \<open>n\<close> candidates the one at position \<open>k\<close> is drawn exactly when
  \<open>k / n \<le> u < (k + 1) / n\<close>: each candidate has an interval of \<open>u\<close> of the same length
  \<open>1 / n\<close>, which is the uniform choice for \<open>u\<close> uniform on \<open>[0, 1)\<close>.
\<close>

theorem mediumMove_priority:
  "length b = 9 \<Longrightarrow> 0 \<le> u \<Longrightarrow> u < 1 \<Longrightarrow>
     mediumMove u b pl = (mediumMove_rule u b pl, b)
   \<and> (mediumMove_rule u b pl = None) = (\<forall>i<9. cell b i \<noteq> None)
   \<and> (\<forall>n k. k < n \<longrightarrow>
         (rand_index u n = k) = (real k / real n \<le> u \<and> u < real (k + 1) / real n))"
proof -
  assume len: "length b = 9" and u: "0 \<le> u" "u < 1"
  have full: "(free b = []) = (\<forall>i<9. cell b i \<noteq> None)"
    using free_iff[OF len] by (auto simp: filter_empty_conv free_def cell_def len)
  have none: "(mediumMove_rule u b pl = None) = (free b = [])"
  proof
    assume "mediumMove_rule u b pl = None"
    then show "free b = []"
      by (auto simp: mediumMove_rule_def Let_def split: list.splits if_splits)
  next
    assume e: "free b = []"
    then have "winning_cells b pl = []" "winning_cells b (opponent pl) = []"
      by (simp_all add: winning_cells_def)
    moreover from e have "cell b 4 \<noteq> None" "filter (\<lambda>i. cell b i = None) [0, 2, 6, 8] = []"
      using full by simp_all
    ultimately show "mediumMove_rule u b pl = None"
      using e by (simp add: mediumMove_rule_def del: filter.simps)
  qed
  show ?thesis
    using mediumMove_eq[OF len, of u pl] none full rand_index_interval[OF u(1)] by simp
qed

theorem mediumMove_priority_witness:
  "(0::real) \<le> 1 / 2 \<and> (1 / 2 ::real) < 1
   \<and> length [Some PX, Some PX, None, Some PO, Some PO, None, None, None, None] = 9
   \<and> mediumMove (1 / 2) [Some PX, Some PX, None, Some PO, Some PO, None, None, None, None] PX
       = (Some 2, [Some PX, Some PX, None, Some PO, Some PO, None, None, None, None])
   \<and> mediumMove (1 / 2) [Some PX, Some PX, None, None, Some PO, None, None, None, None] PO
       = (Some 2, [Some PX, Some PX, None, None, Some PO, None, None, None, None])
   \<and> mediumMove (1 / 2) [Some PX, None, None, None, None, None, None, None, None] PO
       = (Some 4, [Some PX, None, None, None, None, None, None, None, None])
   \<and> mediumMove (1 / 2) [None, None, None, None, Some PX, None, None, None, None] PO
       = (Some 6, [None, None, None, None, Some PX, None, None, None, None])
   \<and> mediumMove (1 / 2) [Some PX, Some PO, Some PX, None, Some PX, None, Some PO, Some PX, Some PO] PO
       = (Some 5, [Some PX, Some PO, Some PX, None, Some PX, None, Some PO, Some PX, Some PO])
   \<and> mediumMove (1 / 2) [Some PX, Some PO, Some PX, Some PO, Some PX, Some PO, Some PO, Some PX, Some PO] PX
       = (None, [Some PX, Some PO, Some PX, Some PO, Some PX, Some PO, Some PO, Some PX, Some PO])
   \<and> (2::nat) < 4
   \<and> (rand_index (1 / 2) 4 = 2) = (real 2 / real 4 \<le> (1 / 2 ::real) \<and> (1 / 2 ::real) < real (2 + 1) / real 4)"
proof -
  let ?win = "[Some PX, Some PX, None, Some PO, Some PO, None, None, None, None]"
  have win: "mediumMove_rule (1 / 2) ?win PX = Some 2"
  proof -
    have "winning_cells ?win PX = [2]" by code_simp
    moreover have "winning_cells ?win (opponent PX) = [5]" by code_simp
    moreover have "free ?win = [2, 5, 6, 7, 8]" by code_simp
    ultimately show ?thesis
      by (simp add: mediumMove_rule_def cell_def rand_index_def)
  qed
  let ?block = "[Some PX, Some PX, None, None, Some PO, None, None, None, None]"
  have block: "mediumMove_rule (1 / 2) ?block PO = Some 2"
  proof -
    have "winning_cells ?block PO = []" by code_simp
    moreover have "winning_cells ?block (opponent PO) = [2]" by code_simp
    moreover have "free ?block = [2, 3, 5, 6, 7, 8]" by code_simp
    ultimately show ?thesis
      by (simp add: mediumMove_rule_def cell_def rand_index_def)
  qed
  let ?centre = "[Some PX, None, None, None, None, None, None, None, None]"
  have centre: "mediumMove_rule (1 / 2) ?centre PO = Some 4"
  proof -
    have "winning_cells ?centre PO = []" by code_simp
    moreover have "winning_cells ?centre (opponent PO) = []" by code_simp
    moreover have "free ?centre = [1, 2, 3, 4, 5, 6, 7, 8]" by code_simp
    ultimately show ?thesis
      by (simp add: mediumMove_rule_def cell_def rand_index_def)
  qed
  let ?corner = "[None, None, None, None, Some PX, None, None, None, None]"
  have corner: "mediumMove_rule (1 / 2) ?corner PO = Some 6"
  proof -
    have "winning_cells ?corner PO = []" by code_simp
    moreover have "winning_cells ?corner (opponent PO) = []" by code_simp
    moreover have "free ?corner = [0, 1, 2, 3, 5, 6, 7, 8]" by code_simp
    ultimately show ?thesis
      by (simp add: mediumMove_rule_def cell_def rand_index_def)
  qed
  let ?edge = "[Some PX, Some PO, Some PX, None, Some PX, None, Some PO, Some PX, Some PO]"
  have edge: "mediumMove_rule (1 / 2) ?edge PO = Some 5"
  proof -
    have "winning_cells ?edge PO = []" by code_simp
    moreover have "winning_cells ?edge (opponent PO) = []" by code_simp
    moreover have "free ?edge = [3, 5]" by code_simp
    ultimately show ?thesis
      by (simp add: mediumMove_rule_def cell_def rand_index_def)
  qed
  let ?full = "[Some PX, Some PO, Some PX, Some PO, Some PX, Some PO, Some PO, Some PX, Some PO]"
  have full: "mediumMove_rule (1 / 2) ?full PX = None"
  proof -
    have "winning_cells ?full PX = []" by code_simp
    moreover have "winning_cells ?full (opponent PX) = []" by code_simp
    moreover have "free ?full = []" by code_simp
    ultimately show ?thesis
      by (simp add: mediumMove_rule_def cell_def rand_index_def)
  qed
  show ?thesis
    using mediumMove_priority [of ?win "1 / 2" PX]
      mediumMove_priority [of ?block "1 / 2" PO]
      mediumMove_priority [of ?centre "1 / 2" PO]
      mediumMove_priority [of ?corner "1 / 2" PO]
      mediumMove_priority [of ?edge "1 / 2" PO]
      mediumMove_priority [of ?full "1 / 2" PX]
      win block centre corner edge full
    by simp
qed

section \<open>Blocking the opponent's immediate win\<close>

text \<open>
  \<open>won c l\<close> is the test \<^verbatim>\<open>calculateWinner\<close> makes on a line. The lemmas below say how
  the evaluator's answer changes when one empty cell is filled.
\<close>

definition won :: "board \<Rightarrow> nat \<times> nat \<times> nat \<Rightarrow> bool" where
  "won c l =
     (case l of (a1, a2, a3) \<Rightarrow>
        cell c a1 \<noteq> None \<and> cell c a1 = cell c a2 \<and> cell c a1 = cell c a3)"

lemma winner_scan_Nil: "winner (scan_lines [] c) = None"
  by simp

lemma winner_scan_Cons:
  "winner (scan_lines (l # ls) c) = (if won c l then cell c (fst l) else winner (scan_lines ls c))"
  by (cases l) (auto simp: won_def)

lemma cell_update: "cell (c[k := v]) a = (if a = k \<and> k < length c then v else cell c a)"
  by (simp add: cell_def)

lemma won_owner: "won c l \<Longrightarrow> \<exists>m. cell c (fst l) = Some m"
  by (cases l) (auto simp: won_def)

lemma won_keep:
  assumes k: "k < length c" "c ! k = None" and w: "won c l"
  shows "won (c[k := v]) l \<and> cell (c[k := v]) (fst l) = cell c (fst l)"
proof -
  obtain a1 a2 a3 where l: "l = (a1, a2, a3)" by (cases l) auto
  have ck: "cell c k = None" using k by (simp add: cell_def)
  from w l have c1: "cell c a1 \<noteq> None" and c2: "cell c a2 = cell c a1" and c3: "cell c a3 = cell c a1"
    by (auto simp: won_def)
  from c1 c2 c3 ck have "a1 \<noteq> k" "a2 \<noteq> k" "a3 \<noteq> k" by auto
  then have "cell (c[k := v]) a1 = cell c a1" "cell (c[k := v]) a2 = cell c a2"
    "cell (c[k := v]) a3 = cell c a3" by (simp_all add: cell_update)
  with c1 c2 c3 l show ?thesis by (simp add: won_def)
qed

lemma won_back:
  assumes w: "won (c[k := Some q]) l" and o: "cell (c[k := Some q]) (fst l) = Some m"
    and mq: "m \<noteq> q"
  shows "won c l \<and> cell c (fst l) = Some m"
proof -
  obtain a1 a2 a3 where l: "l = (a1, a2, a3)" by (cases l) auto
  let ?c = "c[k := Some q]"
  from w o l have c1: "cell ?c a1 = Some m" and c2: "cell ?c a2 = Some m" and c3: "cell ?c a3 = Some m"
    by (auto simp: won_def)
  have same: "cell c a = Some m" if "cell ?c a = Some m" for a
    using that mq by (auto simp: cell_update split: if_splits)
  from same[OF c1] same[OF c2] same[OF c3] l show ?thesis by (simp add: won_def)
qed

lemma scan_other_cell:
  assumes j: "j < length b" "b ! j = None" and k: "k < length b" "b ! k = None"
    and pq: "p \<noteq> q"
  shows "winner (scan_lines ls (b[j := Some p])) = Some q \<Longrightarrow>
         winner (scan_lines ls (b[k := Some q])) = Some q"
proof (induction ls)
  case Nil
  then show ?case by simp
next
  case (Cons l ls)
  show ?case
  proof (cases "won (b[j := Some p]) l")
    case True
    with Cons.prems have o: "cell (b[j := Some p]) (fst l) = Some q"
      by (simp add: winner_scan_Cons)
    from won_back[OF True o] pq have "won b l" "cell b (fst l) = Some q" by auto
    with won_keep[OF k, of l "Some q"] show ?thesis by (simp add: winner_scan_Cons)
  next
    case False
    with Cons.prems have "winner (scan_lines ls (b[j := Some p])) = Some q"
      by (simp add: winner_scan_Cons)
    from Cons.IH[OF this] have IH: "winner (scan_lines ls (b[k := Some q])) = Some q" .
    show ?thesis
    proof (cases "won (b[k := Some q]) l")
      case nw: False
      with IH show ?thesis by (simp add: winner_scan_Cons)
    next
      case w: True
      from won_owner[OF w] obtain m where m: "cell (b[k := Some q]) (fst l) = Some m" ..
      show ?thesis
      proof (cases "m = q")
        case True
        with w m show ?thesis by (simp add: winner_scan_Cons)
      next
        case mq: False
        from won_back[OF w m mq] have "won b l" by simp
        with won_keep[OF j, of l "Some p"] False show ?thesis by simp
      qed
    qed
  qed
qed

lemma scan_remove_block:
  assumes j: "j < length b" "b ! j = None" and jk: "j \<noteq> k" and pq: "p \<noteq> q"
  shows "winner (scan_lines ls (b[j := Some p, k := Some q])) = Some q \<Longrightarrow>
         winner (scan_lines ls (b[k := Some q])) = Some q"
proof (induction ls)
  case Nil
  then show ?case by simp
next
  case (Cons l ls)
  have sw: "b[j := Some p, k := Some q] = b[k := Some q, j := Some p]"
    using jk by (simp add: list_update_swap)
  have j': "j < length (b[k := Some q])" "(b[k := Some q]) ! j = None"
    using j jk by simp_all
  show ?case
  proof (cases "won (b[j := Some p, k := Some q]) l")
    case True
    with Cons.prems have o: "cell (b[j := Some p, k := Some q]) (fst l) = Some q"
      by (simp add: winner_scan_Cons)
    from won_back[of "b[k := Some q]" j p l q] True o pq sw
    have "won (b[k := Some q]) l" "cell (b[k := Some q]) (fst l) = Some q" by auto
    then show ?thesis by (simp add: winner_scan_Cons)
  next
    case False
    with Cons.prems have "winner (scan_lines ls (b[j := Some p, k := Some q])) = Some q"
      by (simp add: winner_scan_Cons)
    from Cons.IH[OF this] have IH: "winner (scan_lines ls (b[k := Some q])) = Some q" .
    have "\<not> won (b[k := Some q]) l"
    proof
      assume "won (b[k := Some q]) l"
      from won_keep[OF j' this, of "Some p"] False sw show False by simp
    qed
    with IH show ?thesis by (simp add: winner_scan_Cons)
  qed
qed

lemma scan_win_survives:
  assumes j: "j < length b" "b ! j = None" and k: "k < length b" "b ! k = None"
    and jk: "j \<noteq> k" and pq: "p \<noteq> q"
  shows "winner (scan_lines ls (b[k := Some p])) = None \<Longrightarrow>
         winner (scan_lines ls (b[j := Some q])) = Some q \<Longrightarrow>
         winner (scan_lines ls (b[k := Some p, j := Some q])) = Some q"
proof (induction ls)
  case Nil
  then show ?case by simp
next
  case (Cons l ls)
  have sw: "b[k := Some p, j := Some q] = b[j := Some q, k := Some p]"
    using jk by (simp add: list_update_swap)
  have k': "k < length (b[j := Some q])" "(b[j := Some q]) ! k = None"
    using k jk by simp_all
  have nk: "\<not> won (b[k := Some p]) l"
  proof
    assume w: "won (b[k := Some p]) l"
    from won_owner[OF w] Cons.prems(1) w show False by (simp add: winner_scan_Cons)
  qed
  with Cons.prems(1) have r1: "winner (scan_lines ls (b[k := Some p])) = None"
    by (simp add: winner_scan_Cons)
  show ?case
  proof (cases "won (b[j := Some q]) l")
    case True
    with Cons.prems(2) have o: "cell (b[j := Some q]) (fst l) = Some q"
      by (simp add: winner_scan_Cons)
    from won_keep[OF k' True, of "Some p"] o sw show ?thesis
      by (simp add: winner_scan_Cons)
  next
    case False
    with Cons.prems(2) have r2: "winner (scan_lines ls (b[j := Some q])) = Some q"
      by (simp add: winner_scan_Cons)
    have "\<not> won (b[k := Some p, j := Some q]) l"
    proof
      assume w: "won (b[k := Some p, j := Some q]) l"
      from won_owner[OF w] obtain m where m: "cell (b[k := Some p, j := Some q]) (fst l) = Some m" ..
      show False
      proof (cases "m = q")
        case True
        from w m have "won (b[j := Some q, k := Some p]) l"
          "cell (b[j := Some q, k := Some p]) (fst l) = Some m" using sw by simp_all
        from won_back[OF this] True pq have "won (b[j := Some q]) l" by auto
        with False show False ..
      next
        case mq: False
        from won_back[OF w m mq] nk show False by simp
      qed
    qed
    with Cons.IH[OF r1 r2] show ?thesis by (simp add: winner_scan_Cons)
  qed
qed

lemma unique_best:
  assumes i: "i \<in> set (free b)"
    and lt: "\<forall>k \<in> set (free b). k \<noteq> i \<longrightarrow> move_score b pl k < move_score b pl i"
  shows "best_cells b pl = [i]"
proof -
  have "set (best_cells b pl) = {i}"
  proof (intro equalityI subsetI)
    fix k assume "k \<in> set (best_cells b pl)"
    then have k: "k \<in> set (free b)" and "move_score b pl i \<le> move_score b pl k"
      using i by (auto simp: best_cells_iff)
    with lt show "k \<in> {i}" by (cases "k = i") auto
  next
    fix k assume "k \<in> {i}"
    then have "k = i" by simp
    moreover have "move_score b pl m \<le> move_score b pl i" if "m \<in> set (free b)" for m
      using lt that by (cases "m = i") auto
    ultimately show "k \<in> set (best_cells b pl)" using i by (simp add: best_cells_iff)
  qed
  moreover have "distinct (best_cells b pl)" by (simp add: best_cells_def distinct_free)
  ultimately show ?thesis by (intro distinct_singleton)
qed

lemma minimax_value_open_range:
  assumes len: "length c = 9" and w: "winner (calculateWinner c) = None"
    and d: "d + int (nempty c) \<le> 9"
  shows "\<exists>v. minimax_value c cur ai d = Fin v \<and> \<bar>v\<bar> \<le> 9 - d"
proof (cases "isBoardFull c")
  case True
  with w d show ?thesis by (simp add: minimax_value.simps[of c])
next
  case False
  let ?scores = "map (\<lambda>i. minimax_value (c[i := Some cur]) (opponent cur) ai (d + 1)) (free c)"
  have nes: "?scores \<noteq> []" using False free_empty_iff[OF len] by simp
  have "minimax_value c cur ai d \<in> set ?scores"
    using fold_max_NegInf_in[OF nes] fold_min_PosInf_in[OF nes] w False
    by (cases "cur = ai") (auto simp: minimax_value.simps[of c] Let_def)
  then obtain k where k: "k \<in> set (free c)"
    and eq: "minimax_value c cur ai d = minimax_value (c[k := Some cur]) (opponent cur) ai (d + 1)"
    by auto
  from free_props[OF k] have kb: "k < length c" "c ! k = None" by auto
  from nempty_place[OF kb, of cur] d
  have "d + 1 + int (nempty (c[k := Some cur])) \<le> 9" by simp
  from minimax_value_range[OF _ this, of "opponent cur" ai] len
  obtain v where "minimax_value (c[k := Some cur]) (opponent cur) ai (d + 1) = Fin v"
    and "v = 0 \<or> \<bar>v\<bar> \<le> 10 - (d + 1)" by auto
  then show ?thesis unfolding eq using d by auto
qed

lemma free_after:
  assumes j: "j \<in> set (free b)" and jk: "j \<noteq> k"
  shows "j \<in> set (free (b[k := v]))"
  using j jk by (simp add: free_def)

lemma nonblocking_loses:
  assumes len: "length b = 9"
    and j: "j \<in> set (free b)"
    and jw: "winner (calculateWinner (b[j := Some (opponent pl)])) = Some (opponent pl)"
    and k: "k \<in> set (free b)" and kj: "k \<noteq> j"
    and kw: "winner (calculateWinner (b[k := Some pl])) \<noteq> Some pl"
  shows "move_score b pl k \<le> Fin (- 9)"
proof (cases "winner (calculateWinner (b[k := Some pl]))")
  case (Some w)
  with kw show ?thesis
    by (simp add: move_score_def minimax_value.simps[of "b[k := Some pl]"])
next
  case None
  let ?bk = "b[k := Some pl]"
  let ?child = "\<lambda>i. minimax_value (?bk[i := Some (opponent pl)]) (opponent (opponent pl)) pl (0 + 1)"
  from free_props[OF j] have jb: "j < length b" "b ! j = None" by auto
  from free_props[OF k] have kb: "k < length b" "b ! k = None" by auto
  have jf: "j \<in> set (free ?bk)" using free_after[OF j] kj by simp
  then have nf: "\<not> isBoardFull ?bk" using free_empty_iff[of ?bk] len by auto
  have val: "minimax_value ?bk (opponent pl) pl 0 = fold min (map ?child (free ?bk)) PosInf"
    using None nf by (simp add: minimax_value.simps[of ?bk] Let_def)
  have "winner (calculateWinner (?bk[j := Some (opponent pl)])) = Some (opponent pl)"
    using scan_win_survives[OF jb kb, of pl "opponent pl" WIN_LINES] kj None jw
    by (simp add: calculateWinner_def)
  then have cj: "?child j = Fin (- 9)"
    by (simp add: minimax_value.simps[of "?bk[j := Some (opponent pl)]"])
  have "?child j \<in> set (map ?child (free ?bk))" using jf by simp
  then have "fold min (map ?child (free ?bk)) PosInf \<le> ?child j" by (rule fold_min_le)
  then show ?thesis unfolding move_score_def val cj .
qed

lemma blocking_holds:
  assumes len: "length b = 9"
    and j: "j \<in> set (free b)"
    and k: "k \<in> set (free b)" and kj: "k \<noteq> j"
    and only: "\<forall>i \<in> set (free b).
                 winner (calculateWinner (b[i := Some (opponent pl)])) = Some (opponent pl)
                 \<longrightarrow> i = j"
    and nowin: "winner (calculateWinner (b[j := Some pl])) \<noteq> Some pl"
  shows "Fin (- 8) \<le> move_score b pl j"
proof -
  let ?bj = "b[j := Some pl]"
  let ?child = "\<lambda>i. minimax_value (?bj[i := Some (opponent pl)]) (opponent (opponent pl)) pl (0 + 1)"
  from free_props[OF j] have jb: "j < length b" "b ! j = None" by auto
  from free_props[OF k] have kb: "k < length b" "b ! k = None" by auto
  have lenj: "length ?bj = 9" using len by simp
  have w: "winner (calculateWinner ?bj) = None"
  proof (cases "winner (calculateWinner ?bj)")
    case (Some w)
    with nowin have "w = opponent pl" by (simp add: eq_opponent_iff)
    with Some have "winner (scan_lines WIN_LINES (b[j := Some pl])) = Some (opponent pl)"
      by (simp add: calculateWinner_def)
    from scan_other_cell[OF jb kb _ this]
    have "winner (calculateWinner (b[k := Some (opponent pl)])) = Some (opponent pl)"
      by (simp add: calculateWinner_def)
    with only k kj show ?thesis by blast
  qed simp
  have kf: "k \<in> set (free ?bj)" using free_after[OF k] kj by simp
  then have nf: "\<not> isBoardFull ?bj" using free_empty_iff[OF lenj] by auto
  have nes: "map ?child (free ?bj) \<noteq> []" using kf by auto
  have val: "move_score b pl j = fold min (map ?child (free ?bj)) PosInf"
    using w nf by (simp add: move_score_def minimax_value.simps[of ?bj] Let_def)
  from fold_min_PosInf_in[OF nes] obtain i where i: "i \<in> set (free ?bj)"
    and eq: "fold min (map ?child (free ?bj)) PosInf = ?child i" by auto
  from free_props[OF i] have ib: "i < length ?bj" "?bj ! i = None" by auto
  then have ij: "i \<noteq> j" using jb by auto
  with ib have ifb: "i \<in> set (free b)" using free_props[OF i] by (simp add: free_def)
  let ?c = "?bj[i := Some (opponent pl)]"
  have lenc: "length ?c = 9" using len by simp
  have ne: "1 + int (nempty ?c) \<le> 9"
    using nempty_place[OF ib, of "opponent pl"] nempty_place[OF jb, of pl] nempty_le[of b] len
    by simp
  have "Fin (- 8) \<le> ?child i"
  proof (cases "winner (calculateWinner ?c)")
    case None
    from minimax_value_open_range[OF lenc None ne, of pl pl]
    obtain v where "minimax_value ?c pl pl 1 = Fin v" "\<bar>v\<bar> \<le> 9 - 1" by auto
    then show ?thesis by simp
  next
    case (Some x)
    have "x \<noteq> opponent pl"
    proof
      assume "x = opponent pl"
      with Some have "winner (scan_lines WIN_LINES (b[j := Some pl, i := Some (opponent pl)]))
                        = Some (opponent pl)" by (simp add: calculateWinner_def)
      from scan_remove_block[OF jb _ _ this] ij
      have "winner (calculateWinner (b[i := Some (opponent pl)])) = Some (opponent pl)"
        by (simp add: calculateWinner_def)
      with only ifb ij show False by blast
    qed
    then have "x = pl" by (simp add: eq_opponent_iff)
    with Some show ?thesis by (simp add: minimax_value.simps[of ?c])
  qed
  then show ?thesis unfolding val eq .
qed

lemma sole_block_best:
  assumes len: "length b = 9"
    and none: "winning_cells b pl = []"
    and one: "winning_cells b (opponent pl) = [j]"
  shows "best_cells b pl = [j]"
proof -
  from one have j: "j \<in> set (free b)"
    and jw: "winner (calculateWinner (b[j := Some (opponent pl)])) = Some (opponent pl)"
    and only: "\<forall>i \<in> set (free b).
                 winner (calculateWinner (b[i := Some (opponent pl)])) = Some (opponent pl)
                 \<longrightarrow> i = j"
    unfolding winning_cells_def filter_single_iff[OF distinct_free] by auto
  from none have nowin: "\<forall>i \<in> set (free b). winner (calculateWinner (b[i := Some pl])) \<noteq> Some pl"
    by (simp add: winning_cells_def filter_empty_conv)
  have "move_score b pl k < move_score b pl j" if k: "k \<in> set (free b)" and kj: "k \<noteq> j" for k
  proof -
    from nowin k have "winner (calculateWinner (b[k := Some pl])) \<noteq> Some pl" by blast
    from nonblocking_loses[OF len j jw k kj this]
    have "move_score b pl k \<le> Fin (- 9)" .
    also have "Fin (- 9) < Fin (- 8)" by simp
    also have "Fin (- 8) \<le> move_score b pl j"
      using blocking_holds[OF len j k kj only] nowin j by blast
    finally show ?thesis .
  qed
  then show ?thesis by (intro unique_best[OF j]) blast
qed

lemma winning_cells_empty_iff:
  assumes len: "length b = 9"
  shows "(winning_cells b pl = []) =
           (\<forall>i<9. cell b i = None \<longrightarrow> winner (calculateWinner (b[i := Some pl])) \<noteq> Some pl)"
  unfolding winning_cells_def filter_empty_conv
  by (simp only: free_iff[OF len] Ball_def) blast

lemma winning_cells_iff:
  assumes len: "length b = 9"
  shows "(k \<in> set (winning_cells b pl)) =
           (k < 9 \<and> cell b k = None \<and> winner (calculateWinner (b[k := Some pl])) = Some pl)"
  by (simp add: winning_cells_def free_iff[OF len])

lemma threat_counterexample_best_cells:
  "best_cells [Some PO, Some PO, None, Some PO, Some PX, None, None, None, Some PX] PX
     = [2, 5, 6, 7]"
  by code_simp

text \<open>
  C4, as the code has it. Let the acting player have no immediate winning move and the
  opponent have one at cell \<open>j\<close>. Then \<^verbatim>\<open>mediumMove\<close> returns an immediate winning cell
  of the opponent (the first in index order); and when \<open>j\<close> is the opponent's only
  immediate winning cell, \<^verbatim>\<open>bestMoveFor\<close> returns \<open>j\<close>. When the opponent has two or
  more immediate winning cells every move scores \<open>-9\<close>, and \<^verbatim>\<open>bestMoveFor\<close> draws among
  all empty cells.
\<close>

theorem block_when_threatened:
  "length b = 9 \<Longrightarrow> 9 \<le> n \<Longrightarrow> 0 \<le> u \<Longrightarrow> u < 1 \<Longrightarrow>
   (\<forall>i<9. cell b i = None \<longrightarrow> winner (calculateWinner (b[i := Some pl])) \<noteq> Some pl) \<Longrightarrow>
   j < 9 \<Longrightarrow> cell b j = None \<Longrightarrow>
   winner (calculateWinner (b[j := Some (opponent pl)])) = Some (opponent pl) \<Longrightarrow>
     (\<exists>k<9. cell b k = None
         \<and> winner (calculateWinner (b[k := Some (opponent pl)])) = Some (opponent pl)
         \<and> mediumMove u b pl = (Some k, b))
   \<and> ((\<forall>k<9. cell b k = None
            \<and> winner (calculateWinner (b[k := Some (opponent pl)])) = Some (opponent pl)
          \<longrightarrow> k = j)
        \<longrightarrow> bestMoveFor n u b pl = Some (Some j, b))"
proof -
  assume len: "length b = 9" and n: "9 \<le> n" and u: "0 \<le> u" "u < 1"
    and nowin: "\<forall>i<9. cell b i = None \<longrightarrow> winner (calculateWinner (b[i := Some pl])) \<noteq> Some pl"
    and j: "j < 9" "cell b j = None"
      "winner (calculateWinner (b[j := Some (opponent pl)])) = Some (opponent pl)"
  have none: "winning_cells b pl = []"
    unfolding winning_cells_empty_iff[OF len] by (rule nowin)
  have "j \<in> set (winning_cells b (opponent pl))"
    unfolding winning_cells_iff[OF len] by (intro conjI j)
  then obtain k ks where ks: "winning_cells b (opponent pl) = k # ks"
    by (cases "winning_cells b (opponent pl)") auto
  then have "k \<in> set (winning_cells b (opponent pl))" by simp
  then have k: "k < 9 \<and> cell b k = None
      \<and> winner (calculateWinner (b[k := Some (opponent pl)])) = Some (opponent pl)"
    unfolding winning_cells_iff[OF len] .
  have mk: "mediumMove u b pl = (Some k, b)"
    by (simp add: mediumMove_eq[OF len] mediumMove_rule_def none ks)
  show ?thesis
  proof (intro conjI impI)
    show "\<exists>k<9. cell b k = None
         \<and> winner (calculateWinner (b[k := Some (opponent pl)])) = Some (opponent pl)
         \<and> mediumMove u b pl = (Some k, b)"
      using k mk by (intro exI[of _ k]) (intro conjI, simp_all)
  next
    assume only: "\<forall>k<9. cell b k = None
            \<and> winner (calculateWinner (b[k := Some (opponent pl)])) = Some (opponent pl)
          \<longrightarrow> k = j"
    have one: "winning_cells b (opponent pl) = [j]"
      unfolding winning_cells_single_iff[OF len] by (intro conjI j only)
    have bc: "best_cells b pl = [j]" by (rule sole_block_best[OF len none one])
    have "bestMoveFor n u b pl =
            Some (if best_cells b pl = [] then None
                  else Some (best_cells b pl ! rand_index u (length (best_cells b pl))), b)"
      by (rule bestMoveFor_eq[OF len n u])
    then show "bestMoveFor n u b pl = Some (Some j, b)"
      unfolding bc using rand_index_one[OF u] by simp
  qed
qed

theorem block_when_threatened_witness:
  "length [Some PX, Some PX, None, None, Some PO, None, None, None, None] = 9
   \<and> (9::nat) \<le> 9 \<and> (0::real) \<le> 1 / 2 \<and> (1 / 2 ::real) < 1
   \<and> \<not> (\<exists>i<9. cell [Some PX, Some PX, None, None, Some PO, None, None, None, None] i = None
          \<and> winner (calculateWinner
                ([Some PX, Some PX, None, None, Some PO, None, None, None, None][i := Some PO]))
              = Some PO)
   \<and> (2::nat) < 9
   \<and> cell [Some PX, Some PX, None, None, Some PO, None, None, None, None] 2 = None
   \<and> winner (calculateWinner
         ([Some PX, Some PX, None, None, Some PO, None, None, None, None][2 := Some (opponent PO)]))
       = Some (opponent PO)
   \<and> \<not> (\<exists>k<9. cell [Some PX, Some PX, None, None, Some PO, None, None, None, None] k = None
          \<and> winner (calculateWinner
                ([Some PX, Some PX, None, None, Some PO, None, None, None, None]
                   [k := Some (opponent PO)]))
              = Some (opponent PO)
          \<and> k \<noteq> 2)
   \<and> mediumMove (1 / 2) [Some PX, Some PX, None, None, Some PO, None, None, None, None] PO
       = (Some 2, [Some PX, Some PX, None, None, Some PO, None, None, None, None])
   \<and> bestMoveFor 9 (1 / 2) [Some PX, Some PX, None, None, Some PO, None, None, None, None] PO
       = Some (Some 2, [Some PX, Some PX, None, None, Some PO, None, None, None, None])"
proof -
  let ?b = "[Some PX, Some PX, None, None, Some PO, None, None, None, None]"
  have len: "length ?b = 9" by simp
  have n: "(9::nat) \<le> 9" by simp
  have u: "(0::real) \<le> 1 / 2" "(1 / 2 ::real) < 1" by simp_all
  have none: "winning_cells ?b PO = []" by code_simp
  have one: "winning_cells ?b (opponent PO) = [2]" by code_simp
  note h1 = none [unfolded winning_cells_empty_iff[OF len]]
  note h2 = one [unfolded winning_cells_single_iff[OF len]]
  from h2 have a: "(2::nat) < 9" and b: "cell ?b 2 = None"
    and c: "winner (calculateWinner (?b[2 := Some (opponent PO)])) = Some (opponent PO)"
    and only: "\<forall>k<9. cell ?b k = None
        \<and> winner (calculateWinner (?b[k := Some (opponent PO)])) = Some (opponent PO)
        \<longrightarrow> k = 2"
    by blast+
  note t = block_when_threatened [of ?b 9 "1 / 2" PO 2, OF len n u h1 a b c]
  from t only have hard: "bestMoveFor 9 (1 / 2) ?b PO = Some (Some 2, ?b)" by blast
  from t obtain k where k: "k < 9" "cell ?b k = None"
    "winner (calculateWinner (?b[k := Some (opponent PO)])) = Some (opponent PO)"
    "mediumMove (1 / 2) ?b PO = (Some k, ?b)" by blast
  with only have "k = 2" by blast
  with k have medium: "mediumMove (1 / 2) ?b PO = (Some 2, ?b)" by simp
  have x1: "\<not> (\<exists>i<9. cell ?b i = None
          \<and> winner (calculateWinner (?b[i := Some PO])) = Some PO)"
    using h1 by blast
  have x2: "\<not> (\<exists>k<9. cell ?b k = None
          \<and> winner (calculateWinner (?b[k := Some (opponent PO)])) = Some (opponent PO)
          \<and> k \<noteq> 2)"
    using only by blast
  show ?thesis
    by (intro conjI len n u x1 a b c x2 medium hard)
qed

text \<open>
  The claim as stated fails for \<^verbatim>\<open>bestMoveFor\<close>: on \<open>[O, O, _, O, X, _, _, _, X]\<close> with
  \<open>X\<close> to move, \<open>X\<close> has no immediate win, \<open>O\<close> wins at 2 and at 6, and with the draw
  \<open>u = 1 / 4\<close> \<^verbatim>\<open>bestMoveFor\<close> returns 5, which is not a winning cell of \<open>O\<close>.
\<close>

theorem block_when_threatened_counterexample:
  "length [Some PO, Some PO, None, Some PO, Some PX, None, None, None, Some PX] = 9
   \<and> winning_cells [Some PO, Some PO, None, Some PO, Some PX, None, None, None, Some PX] PX = []
   \<and> winning_cells [Some PO, Some PO, None, Some PO, Some PX, None, None, None, Some PX]
        (opponent PX) = [2, 6]
   \<and> bestMoveFor 9 (1 / 4) [Some PO, Some PO, None, Some PO, Some PX, None, None, None, Some PX] PX
       = Some (Some 5, [Some PO, Some PO, None, Some PO, Some PX, None, None, None, Some PX])
   \<and> winner (calculateWinner
         ([Some PO, Some PO, None, Some PO, Some PX, None, None, None, Some PX]
            [5 := Some (opponent PX)]))
       \<noteq> Some (opponent PX)"
proof -
  let ?b = "[Some PO, Some PO, None, Some PO, Some PX, None, None, None, Some PX]"
  have len: "length ?b = 9" by simp
  have none: "winning_cells ?b PX = []" by code_simp
  have two: "winning_cells ?b (opponent PX) = [2, 6]" by code_simp
  have r: "rand_index (1 / 4) (length [2, 5, 6, 7 :: nat]) = 1" by (simp add: rand_index_def)
  have "bestMoveFor 9 (1 / 4) ?b PX =
          Some (if best_cells ?b PX = [] then None
                else Some (best_cells ?b PX ! rand_index (1 / 4) (length (best_cells ?b PX))), ?b)"
    by (rule bestMoveFor_eq[OF len]) simp_all
  then have best: "bestMoveFor 9 (1 / 4) ?b PX = Some (Some 5, ?b)"
    unfolding threat_counterexample_best_cells r by simp
  have miss: "winner (calculateWinner (?b[5 := Some (opponent PX)])) \<noteq> Some (opponent PX)"
    by (simp add: calculateWinner_def WIN_LINES_def cell_def)
  from len none two best miss show ?thesis by blast
qed

section \<open>Self-play from the empty board\<close>

text \<open>
  The empty board has game value 0 for the player to move: a first player who takes a
  win, else blocks, else takes the first free cell of a fixed priority list never loses,
  and neither does a second player who does the same with a list chosen by the first
  move. Each is checked by evaluating \<open>holds\<close>.
\<close>

lemma hold_first_PX: "holds [0, 2, 4, 1, 3, 5, 6, 7, 8] (replicate 9 None) PX PX"
  by code_simp

lemma hold_first_PO: "holds [0, 2, 4, 1, 3, 5, 6, 7, 8] (replicate 9 None) PO PO"
  by code_simp

lemma hold_second_PO_a:
  "list_all (\<lambda>f. holds [4, 0, 5, 1, 6, 2, 3, 7, 8] ((replicate 9 None)[f := Some PX]) PO PO)
     [0, 1, 3, 8]"
  by code_simp

lemma hold_second_PO_b:
  "list_all (\<lambda>f. holds [4, 2, 3, 0, 1, 5, 6, 7, 8] ((replicate 9 None)[f := Some PX]) PO PO)
     [2, 5, 6]"
  by code_simp

lemma hold_second_PO_c:
  "list_all (\<lambda>f. holds [4, 6, 0, 1, 2, 3, 5, 7, 8] ((replicate 9 None)[f := Some PX]) PO PO)
     [4, 7]"
  by code_simp

lemma hold_second_PX_a:
  "list_all (\<lambda>f. holds [4, 0, 5, 1, 6, 2, 3, 7, 8] ((replicate 9 None)[f := Some PO]) PX PX)
     [0, 1, 3, 8]"
  by code_simp

lemma hold_second_PX_b:
  "list_all (\<lambda>f. holds [4, 2, 3, 0, 1, 5, 6, 7, 8] ((replicate 9 None)[f := Some PO]) PX PX)
     [2, 5, 6]"
  by code_simp

lemma hold_second_PX_c:
  "list_all (\<lambda>f. holds [4, 6, 0, 1, 2, 3, 5, 7, 8] ((replicate 9 None)[f := Some PO]) PX PX)
     [4, 7]"
  by code_simp

lemma second_holds:
  "f < 9 \<Longrightarrow> \<exists>prio. holds prio ((replicate 9 None)[f := Some p]) (opponent p) (opponent p)"
proof -
  assume "f < 9"
  then have "f \<in> {0, 1, 3, 8} \<or> f \<in> {2, 5, 6} \<or> f \<in> {4, 7}" by auto
  then show ?thesis
    using hold_second_PO_a hold_second_PO_b hold_second_PO_c
      hold_second_PX_a hold_second_PX_b hold_second_PX_c
    by (cases p) (simp_all, blast+)
qed

lemma free_start: "free (replicate 9 None) = [0..<9]"
  by (simp add: free_def filter_id_conv)

lemma start_outcome: "outcome (replicate 9 None) p p = 0"
proof -
  let ?e = "replicate 9 None :: board"
  let ?os = "map (\<lambda>i. outcome (?e[i := Some p]) (opponent p) p) (free ?e)"
  have "0 \<le> outcome ?e p p"
    using hold_first_PX hold_first_PO by (cases p) (auto intro: holds_outcome)
  moreover have "outcome ?e p p \<le> 0"
  proof -
    have w: "winner (calculateWinner ?e) = None" "\<not> isBoardFull ?e"
      by (simp_all add: calculateWinner_def WIN_LINES_def cell_def isBoardFull_def list_all_iff)
    then have step: "outcome ?e p p = fold max ?os (- 1)"
      by (simp add: outcome.simps[of ?e p p] Let_def)
    have "x \<le> 0" if "x \<in> set ?os" for x
    proof -
      from that obtain f where f: "f < 9" and x: "x = outcome (?e[f := Some p]) (opponent p) p"
        by (auto simp: free_start)
      from second_holds[OF f, of p] obtain prio where
        "holds prio (?e[f := Some p]) (opponent p) (opponent p)" ..
      from holds_outcome[OF this] show ?thesis
        unfolding x by (simp add: outcome_opponent)
    qed
    with fold_max_in[of ?os "- 1"] show ?thesis unfolding step by auto
  qed
  ultimately show ?thesis by simp
qed


text \<open>
  C1. Start from the all-empty board with either player to move, both sides at hard
  difficulty, so that every turn plays the index \<^verbatim>\<open>bestMoveFor\<close> returns. Whatever
  values \<^verbatim>\<open>Math.random()\<close> yields for the tie-breaks (any list of at least nine
  numbers in \<open>[0, 1)\<close>), and for any recursion bound of at least nine, the run ends, and
  it ends on a full board on which \<^verbatim>\<open>calculateWinner\<close> reports no winner: a draw.
\<close>

theorem selfplay_draw:
  "list_all (\<lambda>u. 0 \<le> u \<and> u < 1) us \<Longrightarrow> 9 \<le> length us \<Longrightarrow> 9 \<le> n \<Longrightarrow>
   \<exists>bf. autoplay n Hard Hard us (replicate 9 None) p = Some bf \<and>
     winner (calculateWinner bf) = None \<and> isBoardFull bf"
  by (rule autoplay_draw) (simp_all add: start_outcome nempty_def)

theorem selfplay_draw_witness:
  "list_all (\<lambda>u. 0 \<le> u \<and> u < 1) [0, 1 / 2, 1 / 4, 3 / 4, 0, 1 / 3, 2 / 3, 1 / 8, 7 / 8 :: real]
   \<and> 9 \<le> length [0, 1 / 2, 1 / 4, 3 / 4, 0, 1 / 3, 2 / 3, 1 / 8, 7 / 8 :: real]
   \<and> (9::nat) \<le> 9
   \<and> (\<exists>bf. autoplay 9 Hard Hard [0, 1 / 2, 1 / 4, 3 / 4, 0, 1 / 3, 2 / 3, 1 / 8, 7 / 8]
              (replicate 9 None) PX = Some bf
          \<and> winner (calculateWinner bf) = None \<and> isBoardFull bf)"
  using selfplay_draw [of "[0, 1 / 2, 1 / 4, 3 / 4, 0, 1 / 3, 2 / 3, 1 / 8, 7 / 8]" 9 PX]
  by simp

end
